theory Spec2Isabelle
  imports Main "HOL-Library.AList" "HOL-Library.Multiset"
begin

section \<open>Byte strings and the Python primitives the server relies on\<close>

text \<open>
  The server of \<^verbatim>\<open>server/bert_serving/server/__init__.py\<close> moves multipart messages:
  a message is a list of frames, a frame is a byte string. The model follows CPython 3.6/3.7,
  the interpreters Tensorflow 1.10 runs on.
\<close>

type_synonym bytes = string
type_synonym frames = "bytes list"

datatype exn = IndexError | KeyError | ValueError | TypeError

text \<open>\<^verbatim>\<open>b.split(sep)\<close> for a one-byte separator: one more piece than there are separators.\<close>

fun py_split :: "char \<Rightarrow> bytes \<Rightarrow> bytes list" where
  "py_split c [] = [[]]"
| "py_split c (x # xs) =
     (if x = c then [] # py_split c xs
      else (case py_split c xs of [] \<Rightarrow> [[x]] | y # ys \<Rightarrow> (x # y) # ys))"

text \<open>
  \<^verbatim>\<open>int(b)\<close> on a byte string: surrounding ASCII whitespace is stripped, one sign is allowed,
  then decimal digits, where single underscores may separate digits. Anything else raises
  ValueError, which is \<open>None\<close> here.
\<close>

definition py_isspace :: "char \<Rightarrow> bool" where
  "py_isspace c = (c \<in> set [CHR '' '', CHR 0x09, CHR 0x0A, CHR 0x0B, CHR 0x0C, CHR 0x0D])"

definition py_isdigit :: "char \<Rightarrow> bool" where
  "py_isdigit c = ((48::nat) \<le> of_char c \<and> (of_char c :: nat) \<le> 57)"

definition py_strip :: "bytes \<Rightarrow> bytes" where
  "py_strip s = rev (dropWhile py_isspace (rev (dropWhile py_isspace s)))"

fun digits_ok :: "bytes \<Rightarrow> bool" where
  "digits_ok [] = False"
| "digits_ok [c] = py_isdigit c"
| "digits_ok (c # d # ds) =
     (py_isdigit c \<and> (if d = CHR ''_'' then digits_ok ds else digits_ok (d # ds)))"

definition digits_val :: "bytes \<Rightarrow> nat" where
  "digits_val ds = foldl (\<lambda>a c. 10 * a + ((of_char c :: nat) - 48)) 0 (filter (\<lambda>c. c \<noteq> CHR ''_'') ds)"

definition py_int :: "bytes \<Rightarrow> int option" where
  "py_int b =
     (case py_strip b of
        [] \<Rightarrow> None
      | c # cs \<Rightarrow>
          if c = CHR ''-'' then (if digits_ok cs then Some (- int (digits_val cs)) else None)
          else if c = CHR ''+'' then (if digits_ok cs then Some (int (digits_val cs)) else None)
          else (if digits_ok (c # cs) then Some (int (digits_val (c # cs))) else None))"

text \<open>\<^verbatim>\<open>b'%d' % n\<close> for a length \<open>n\<close>.\<close>

fun dec :: "nat \<Rightarrow> bytes" where
  "dec n = (if n < 10 then [char_of (48 + n)] else dec (n div 10) @ [char_of (48 + n mod 10)])"

declare dec.simps [simp del]

text \<open>
  A dict keeps its keys in insertion order: an association list, where assignment replaces in
  place or appends (\<open>AList.update\<close>). \<^verbatim>\<open>d.pop(k)\<close> raises KeyError on a missing key.
\<close>

type_synonym ('k, 'v) dict = "('k \<times> 'v) list"

definition dict_pop :: "'k \<Rightarrow> ('k, 'v) dict \<Rightarrow> ('k, 'v) dict option" where
  "dict_pop k d = (case map_of d k of None \<Rightarrow> None | Some _ \<Rightarrow> Some (AList.delete k d))"

text \<open>Reading \<^verbatim>\<open>d[k]\<close> in a \<^verbatim>\<open>defaultdict\<close> stores the default under a missing key.\<close>

definition dd_get :: "'v \<Rightarrow> 'k \<Rightarrow> ('k, 'v) dict \<Rightarrow> 'v \<times> ('k, 'v) dict" where
  "dd_get dflt k d = (case map_of d k of None \<Rightarrow> (dflt, AList.update k dflt d) | Some v \<Rightarrow> (v, d))"

section \<open>Tensors\<close>

text \<open>
  A numpy array of dimension at least one: its element type, the shape after the first axis,
  and its slices along axis 0. \<^verbatim>\<open>X.shape[0]\<close> is the number of slices.
\<close>

record 'r ndarray =
  dtype :: string
  trailing :: "nat list"
  rows :: "'r list"

definition shape :: "'r ndarray \<Rightarrow> nat list" where
  "shape X = length (rows X) # trailing X"

record md =
  md_dtype :: string
  md_shape :: "nat list"

text \<open>
  What the model takes from numpy, pyzmq's \<^verbatim>\<open>jsonapi\<close> and the server's arguments, none of
  which is code of this repository:
  \<^item> \<open>recv_ndarray h b\<close> is lines 347 to 349, \<^verbatim>\<open>np.frombuffer(memoryview(b),
    dtype=loads(h)['dtype']).reshape(loads(h)['shape'])\<close>, with the exception it raises if any
    (a header of a zero-dimensional array counts as one: line 354 reads \<^verbatim>\<open>X.shape[0]\<close>);
  \<^item> \<open>dumps_md\<close> is \<^verbatim>\<open>jsonapi.dumps\<close> on the header dict, \<open>tobytes\<close> the buffer of an array;
  \<^item> \<open>result_type\<close> is the element type numpy gives a concatenation;
  \<^item> \<open>loads\<close> and \<open>dumps\<close> are \<^verbatim>\<open>jsonapi.loads\<close> and \<^verbatim>\<open>jsonapi.dumps\<close> on a client payload;
  \<^item> \<open>config_json n client\<close> is the JSON text of the configuration dict of lines 263 to 272,
    for the request counter \<open>n\<close>;
  \<^item> \<open>max_batch_size\<close> is \<^verbatim>\<open>args.max_batch_size\<close>.
\<close>

datatype 'a payload = Seq "'a list" | Dict nat | Scalar

record ('a, 'r) lib =
  recv_ndarray :: "bytes \<Rightarrow> bytes \<Rightarrow> exn + 'r ndarray"
  dumps_md :: "md \<Rightarrow> bytes"
  tobytes :: "'r ndarray \<Rightarrow> bytes"
  result_type :: "string list \<Rightarrow> string"
  loads :: "bytes \<Rightarrow> 'a payload option"
  dumps :: "'a list \<Rightarrow> bytes"
  config_json :: "nat \<Rightarrow> bytes \<Rightarrow> bytes"
  max_batch_size :: int

text \<open>
  \<^verbatim>\<open>np.concatenate(tmp, axis=0)\<close>: ValueError on an empty list and when the arrays differ
  after the first axis.
\<close>

definition np_concatenate :: "('a, 'r) lib \<Rightarrow> 'r ndarray list \<Rightarrow> exn + 'r ndarray" where
  "np_concatenate L tmp =
     (case tmp of
        [] \<Rightarrow> Inl ValueError
      | X # Xs \<Rightarrow>
          if list_all (\<lambda>Y. trailing Y = trailing X) Xs
          then Inr \<lparr>dtype = result_type L (map dtype tmp), trailing = trailing X,
                    rows = concat (map rows tmp)\<rparr>
          else Inl ValueError)"

section \<open>Commands, log lines and effects\<close>

definition terminate :: bytes where "terminate = ''TERMINATION''"
definition show_config :: bytes where "show_config = ''SHOW_CONFIG''"
definition new_job :: bytes where "new_job = ''REGISTER''"

datatype logline =
    New_config_request int bytes
  | New_encode_request int bytes
  | Wrongly_formatted nat frames
  | Collect_job bytes nat int
  | Send_back int bytes
  | Job_register int bytes
  | Send_config bytes

datatype event =
    Info logline
  | Error logline
  | Sink_send frames
  | Backend_send frames
  | Publish frames
  | Sleep_ms nat

text \<open>A process either goes on with its state, or an exception left \<^verbatim>\<open>run\<close> and ended it.\<close>

datatype 's outcome = Ok (state_of: 's) | Raised exn (state_of: 's)

text \<open>\<^verbatim>\<open>send_ndarray(src, dest, X, req_id=b'')\<close>: the frames it hands to \<^verbatim>\<open>send_multipart\<close>.\<close>

definition send_ndarray :: "('a, 'r) lib \<Rightarrow> bytes \<Rightarrow> 'r ndarray \<Rightarrow> bytes \<Rightarrow> frames" where
  "send_ndarray L dest X req_id =
     [dest, dumps_md L \<lparr>md_dtype = dtype X, md_shape = shape X\<rparr>, tobytes L X, req_id]"

section \<open>The sink\<close>

record 'r sink =
  pending_checksum :: "(bytes, nat) dict"
  pending_result :: "(bytes, ('r ndarray \<times> bytes option) list) dict"
  job_checksum :: "(bytes, int) dict"
  emitted :: "event list"

definition sink_init :: "'r sink" where
  "sink_init = \<lparr>pending_checksum = [], pending_result = [], job_checksum = [], emitted = []\<rparr>"

definition emit :: "event list \<Rightarrow> 'r sink \<Rightarrow> 'r sink" where
  "emit es st = st\<lparr>emitted := emitted st @ es\<rparr>"

text \<open>
  Lines 374 to 382, a message on the pair socket. The partial id of a part is kept as the
  split of the chunk id left it: \<open>None\<close> is the default \<^verbatim>\<open>0\<close>.
\<close>

definition sink_frontend :: "'r sink \<Rightarrow> frames \<Rightarrow> 'r sink outcome" where
  "sink_frontend st msg =
     (case msg of
        [client_addr, msg_type, msg_info, req_id] \<Rightarrow>
          if msg_type = new_job then
            (case py_int msg_info of
               None \<Rightarrow> Raised ValueError st
             | Some n \<Rightarrow>
                 let job_info = client_addr @ ''#'' @ req_id in
                 Ok (emit [Info (Job_register n job_info)]
                       (st\<lparr>job_checksum := AList.update job_info n (job_checksum st)\<rparr>)))
          else if msg_type = show_config then
            Ok (emit [Sleep_ms 100, Info (Send_config client_addr),
                      Publish [client_addr, msg_info, req_id]] st)
          else Ok st
      | _ \<Rightarrow> Raised ValueError st)"

text \<open>
  Line 366, \<^verbatim>\<open>[x[0] for x in sorted(tmp, key=lambda x: int(x[1]))]\<close>: the key of every part is
  computed first (ValueError when a partial id is no integer), then a stable sort.
\<close>

definition part_key :: "bytes option \<Rightarrow> int option" where
  "part_key p = (case p of None \<Rightarrow> Some 0 | Some b \<Rightarrow> py_int b)"

definition sorted_parts :: "('r ndarray \<times> bytes option) list \<Rightarrow> 'r ndarray list option" where
  "sorted_parts tmp =
     (case those (map (\<lambda>x. part_key (snd x)) tmp) of
        None \<Rightarrow> None
      | Some ks \<Rightarrow> Some (map snd (sort_key fst (zip ks (map fst tmp)))))"

text \<open>
  Line 360, the scan for finished jobs, in the order of \<^verbatim>\<open>pending_result.items()\<close>.
  \<^verbatim>\<open>job_checksum\<close> is a plain dict: a job that is not registered raises KeyError.
  The defaults that reading \<^verbatim>\<open>pending_checksum[k]\<close> stored are returned with the finished
  jobs; when the scan raises, the process ends and they are not reported.
\<close>

fun finished_scan ::
  "(bytes, 'p) dict \<Rightarrow> (bytes, nat) dict \<Rightarrow> (bytes, int) dict
     \<Rightarrow> exn + ((bytes \<times> 'p) list \<times> (bytes, nat) dict)" where
  "finished_scan [] pc jc = Inr ([], pc)"
| "finished_scan ((k, v) # kvs) pc jc =
     (case dd_get 0 k pc of
        (n, pc') \<Rightarrow>
          (case map_of jc k of
             None \<Rightarrow> Inl KeyError
           | Some e \<Rightarrow>
               (case finished_scan kvs pc' jc of
                  Inl x \<Rightarrow> Inl x
                | Inr (fin, pc'') \<Rightarrow> Inr (if int n = e then (k, v) # fin else fin, pc''))))"

text \<open>Lines 361 to 371, the delivery of the finished jobs.\<close>

fun deliver ::
  "('a, 'r) lib \<Rightarrow> (bytes \<times> ('r ndarray \<times> bytes option) list) list \<Rightarrow> 'r sink
     \<Rightarrow> 'r sink outcome" where
  "deliver L [] st = Ok st"
| "deliver L ((job_info, tmp) # fin) st =
     (case map_of (job_checksum st) job_info of
        None \<Rightarrow> Raised KeyError st
      | Some e \<Rightarrow>
          let st1 = emit [Info (Send_back e job_info)] st in
          (case sorted_parts tmp of
             None \<Rightarrow> Raised ValueError st1
           | Some tmp' \<Rightarrow>
               (case py_split CHR ''#'' job_info of
                  [client_addr, req_id] \<Rightarrow>
                    (case np_concatenate L tmp' of
                       Inl x \<Rightarrow> Raised x st1
                     | Inr T \<Rightarrow>
                         let st2 = emit [Publish (send_ndarray L client_addr T req_id)] st1 in
                         (case dict_pop job_info (pending_result st2) of
                            None \<Rightarrow> Raised KeyError st2
                          | Some pr \<Rightarrow>
                              (case dict_pop job_info (pending_checksum st2) of
                                 None \<Rightarrow> Raised KeyError (st2\<lparr>pending_result := pr\<rparr>)
                               | Some pc \<Rightarrow>
                                   (case dict_pop job_info (job_checksum st2) of
                                      None \<Rightarrow>
                                        Raised KeyError
                                          (st2\<lparr>pending_result := pr, pending_checksum := pc\<rparr>)
                                    | Some jc \<Rightarrow>
                                        deliver L fin
                                          (st2\<lparr>pending_result := pr, pending_checksum := pc,
                                               job_checksum := jc\<rparr>)))))
                | _ \<Rightarrow> Raised ValueError st1)))"

text \<open>Lines 353 and 354: the part is appended and its rows are counted.\<close>

definition sink_store ::
  "'r sink \<Rightarrow> bytes \<Rightarrow> 'r ndarray \<Rightarrow> bytes option \<Rightarrow> 'r sink" where
  "sink_store st job_id X partial_id =
     (case dd_get [] job_id (pending_result st) of
        (parts, pr) \<Rightarrow>
          (case dd_get 0 job_id (pending_checksum st) of
             (n, pc) \<Rightarrow>
               st\<lparr>pending_result := AList.update job_id (parts @ [(X, partial_id)]) pr,
                  pending_checksum := AList.update job_id (n + length (rows X)) pc\<rparr>))"

text \<open>Lines 360 to 371: the scan, then the delivery of what it found.\<close>

definition sink_finish :: "('a, 'r) lib \<Rightarrow> 'r sink \<Rightarrow> 'r sink outcome" where
  "sink_finish L st =
     (case finished_scan (pending_result st) (pending_checksum st) (job_checksum st) of
        Inl x \<Rightarrow> Raised x st
      | Inr (finished, pc') \<Rightarrow> deliver L finished (st\<lparr>pending_checksum := pc'\<rparr>))"

text \<open>
  Lines 344 to 371, a message on the pull socket. No handler of the loop catches IndexError,
  KeyError or ValueError (only \<^verbatim>\<open>zmq.error.ContextTerminated\<close> is caught, outside the loop),
  so each of them ends the sink. A zero-dimensional tensor is the one case where the state at
  the raise is not the source's: there the part is appended at line 353 before
  \<^verbatim>\<open>X.shape[0]\<close> raises IndexError at line 354, here the tables are as they were.
\<close>

definition sink_receiver :: "('a, 'r) lib \<Rightarrow> 'r sink \<Rightarrow> frames \<Rightarrow> 'r sink outcome" where
  "sink_receiver L st msg =
     (if length msg < 3 then Raised IndexError st
      else
        (case recv_ndarray L (msg ! 1) (msg ! 2) of
           Inl x \<Rightarrow> Raised x st
         | Inr X \<Rightarrow>
             let job_info = py_split CHR ''@'' (msg ! 0);
                 job_id = hd job_info;
                 partial_id = (if length job_info = 2 then Some (job_info ! 1) else None);
                 st1 = sink_store st job_id X partial_id
             in
             (case map_of (job_checksum st1) job_id of
                None \<Rightarrow> Raised KeyError st1
              | Some e \<Rightarrow>
                  sink_finish L
                    (emit [Info (Collect_job job_id
                                   (fst (dd_get 0 job_id (pending_checksum st1))) e)] st1))))"

text \<open>
  The loop of lines 341 to 382 over the messages the poller hands it, each tagged with the
  socket it came from.
\<close>

datatype inbound = Receiver frames | Frontend frames

definition sink_step :: "('a, 'r) lib \<Rightarrow> 'r sink \<Rightarrow> inbound \<Rightarrow> 'r sink outcome" where
  "sink_step L st m =
     (case m of Receiver msg \<Rightarrow> sink_receiver L st msg | Frontend msg \<Rightarrow> sink_frontend st msg)"

fun sink_run :: "('a, 'r) lib \<Rightarrow> 'r sink \<Rightarrow> inbound list \<Rightarrow> 'r sink outcome" where
  "sink_run L st [] = Ok st"
| "sink_run L st (m # ms) =
     (case sink_step L st m of Ok st' \<Rightarrow> sink_run L st' ms | Raised x st' \<Rightarrow> Raised x st')"

section \<open>The worker\<close>

text \<open>
  Lines 430 and 431: what a worker sends for one prediction \<open>r\<close>, through
  \<^verbatim>\<open>send_ndarray(sink, r['client_id'], r['encodes'])\<close>, with the default \<^verbatim>\<open>req_id=b''\<close>.
\<close>

definition worker_send :: "('a, 'r) lib \<Rightarrow> bytes \<Rightarrow> 'r ndarray \<Rightarrow> frames" where
  "worker_send L client_id encodes = send_ndarray L client_id encodes []"

section \<open>The ventilator\<close>

record vent =
  num_req :: nat
  effects :: "event list"

definition vent_init :: vent where
  "vent_init = \<lparr>num_req = 0, effects = []\<rparr>"

definition effect :: "event list \<Rightarrow> vent \<Rightarrow> vent" where
  "effect es st = st\<lparr>effects := effects st @ es\<rparr>"

text \<open>\<^verbatim>\<open>xs[lo:hi]\<close>: a negative bound counts from the end, both bounds are clipped.\<close>

definition py_slice :: "'a list \<Rightarrow> int \<Rightarrow> int \<Rightarrow> 'a list" where
  "py_slice xs lo hi =
     (let n = int (length xs);
          l = (if lo < 0 then max (n + lo) 0 else min lo n);
          h = (if hi < 0 then max (n + hi) 0 else min hi n)
      in take (nat (h - l)) (drop (nat l) xs))"

text \<open>
  Lines 286 to 291, the partition loop. It does not end when a slice is empty before the
  batch is used up, which is \<open>None\<close>.
\<close>

partial_function (option) partition ::
  "('a, 'r) lib \<Rightarrow> bytes \<Rightarrow> 'a list \<Rightarrow> nat \<Rightarrow> event list \<Rightarrow> event list option" where
  "partition L job_id seqs s_idx out =
     (if s_idx < length seqs then
        partition L job_id seqs
          (s_idx + length (py_slice seqs (int s_idx) (int s_idx + max_batch_size L)))
          (if py_slice seqs (int s_idx) (int s_idx + max_batch_size L) \<noteq> []
           then out @ [Backend_send [job_id @ ''@'' @ dec s_idx,
                         dumps L (py_slice seqs (int s_idx) (int s_idx + max_batch_size L))]]
           else out)
      else Some out)"

declare partition.simps [code]

text \<open>
  Lines 296 to 298, the handler of ValueError: two error lines, and the loop goes on.
\<close>

definition value_error :: "frames \<Rightarrow> vent \<Rightarrow> vent" where
  "value_error request st = effect [Error (Wrongly_formatted (length request) request)] st"

text \<open>\<^verbatim>\<open>client.decode('ascii')\<close> raises UnicodeDecodeError, a ValueError, on a byte above 127.\<close>

definition is_ascii :: "bytes \<Rightarrow> bool" where
  "is_ascii b = list_all (\<lambda>c. (of_char c :: nat) < 128) b"

text \<open>
  Lines 258 to 298, one turn of the loop on a received message. \<open>None\<close> is a turn that never
  ends; \<open>Raised\<close> is an exception no handler of the loop catches, which ends the thread.
  \<^verbatim>\<open>len\<close> of a JSON number, boolean or null raises TypeError, and so does slicing a dict.
\<close>

definition vent_request :: "('a, 'r) lib \<Rightarrow> vent \<Rightarrow> frames \<Rightarrow> vent outcome option" where
  "vent_request L st request =
     (case request of
        [client, msg, req_id] \<Rightarrow>
          if msg = show_config then
            (case py_int req_id of
               None \<Rightarrow> Some (Ok (value_error request st))
             | Some r \<Rightarrow>
                 let st1 = effect [Info (New_config_request r client)] st in
                 if is_ascii client
                 then Some (Ok (effect
                        [Sink_send [client, msg, config_json L (num_req st) client, req_id]] st1))
                 else Some (Ok (value_error request st1)))
          else
            (case py_int req_id of
               None \<Rightarrow> Some (Ok (value_error request st))
             | Some r \<Rightarrow>
                 let st1 = (effect [Info (New_encode_request r client)] st)
                             \<lparr>num_req := num_req st + 1\<rparr>;
                     job_id = client @ ''#'' @ req_id
                 in
                 (case loads L msg of
                    None \<Rightarrow> Some (Ok (value_error request st1))
                  | Some Scalar \<Rightarrow> Some (Raised TypeError st1)
                  | Some (Dict n) \<Rightarrow>
                      let st2 = effect [Sink_send [client, new_job, dec n, req_id]] st1 in
                      if int n > max_batch_size L
                      then (if 0 < n then Some (Raised TypeError st2) else Some (Ok st2))
                      else Some (Ok (effect [Backend_send [job_id, msg]] st2))
                  | Some (Seq seqs) \<Rightarrow>
                      let st2 = effect [Sink_send [client, new_job, dec (length seqs), req_id]] st1
                      in
                      if int (length seqs) > max_batch_size L
                      then (case partition L job_id seqs 0 [] of
                              None \<Rightarrow> None
                            | Some out \<Rightarrow> Some (Ok (effect out st2)))
                      else Some (Ok (effect [Backend_send [job_id, msg]] st2))))
      | _ \<Rightarrow> Some (Ok (value_error request st)))"

fun vent_run :: "('a, 'r) lib \<Rightarrow> vent \<Rightarrow> frames list \<Rightarrow> vent outcome option" where
  "vent_run L st [] = Some (Ok st)"
| "vent_run L st (request # rest) =
     (case vent_request L st request of
        None \<Rightarrow> None
      | Some (Raised x st') \<Rightarrow> Some (Raised x st')
      | Some (Ok st') \<Rightarrow> vent_run L st' rest)"

section \<open>An instance of the library parameters\<close>

text \<open>
  For the examples: a payload is the sequence of its bytes, a tensor is a one-dimensional
  array of bytes whose header is its element type \<^verbatim>\<open>u1\<close>, and the batch limit is \<open>m\<close>.
\<close>

definition example_lib :: "int \<Rightarrow> (char, char) lib" where
  "example_lib m =
     \<lparr>recv_ndarray = (\<lambda>h b. if h = ''u1'' then Inr \<lparr>dtype = ''u1'', trailing = [], rows = b\<rparr>
                             else Inl ValueError),
      dumps_md = md_dtype, tobytes = rows, result_type = (\<lambda>ds. ''u1''),
      loads = (\<lambda>b. Some (Seq b)), dumps = (\<lambda>xs. xs), config_json = (\<lambda>n c. ''{}''),
      max_batch_size = m\<rparr>"

section \<open>The partition the specification asks for\<close>

text \<open>
  Contiguous chunks of at most \<open>m\<close> items, taken at the offsets \<open>0, m, 2m, \<dots>\<close> while the
  offset is inside the batch, each paired with its offset.
\<close>

definition spec_chunks :: "nat \<Rightarrow> 'a list \<Rightarrow> (nat \<times> 'a list) list" where
  "spec_chunks m seqs =
     map (\<lambda>i. (i * m, take m (drop (i * m) seqs))) [0..<(length seqs + m - 1) div m]"

section \<open>Notions for the statements about the sink\<close>

text \<open>
  \<open>received pc k\<close> is what reading \<^verbatim>\<open>pending_checksum[k]\<close> gives; a job is complete when its
  registered count equals it; \<open>delivered_jobs\<close> are the jobs whose delivery the log announces
  (line 362, before the reply is built and published); a job is over its count when more rows
  were received than were registered.
\<close>

definition received :: "(bytes, nat) dict \<Rightarrow> bytes \<Rightarrow> nat" where
  "received pc k = fst (dd_get 0 k pc)"

definition complete :: "(bytes, nat) dict \<Rightarrow> (bytes, int) dict \<Rightarrow> bytes \<Rightarrow> bool" where
  "complete pc jc k = (map_of jc k = Some (int (received pc k)))"



section \<open>The reply the specification asks for\<close>

text \<open>
  The parts of a job sorted by partial id ascending, in numeric order (a missing partial id
  is \<^verbatim>\<open>0\<close>), concatenated along axis 0, and published as
  \<^verbatim>\<open>[client_addr, tensor_header_json, tensor_bytes, req_id]\<close>, where the client address is the
  job id before its \<^verbatim>\<open>#\<close> and the request id is what follows it.
\<close>

definition rowsum :: "('r ndarray \<times> bytes option) list \<Rightarrow> nat" where
  "rowsum parts = sum_list (map (\<lambda>p. length (rows (fst p))) parts)"

definition partial_id_of :: "'r ndarray \<times> bytes option \<Rightarrow> int" where
  "partial_id_of p = (case part_key (snd p) of None \<Rightarrow> 0 | Some i \<Rightarrow> i)"

definition spec_order :: "('r ndarray \<times> bytes option) list \<Rightarrow> 'r ndarray list" where
  "spec_order parts = map fst (sort_key partial_id_of parts)"

definition spec_tensor :: "('a, 'r) lib \<Rightarrow> ('r ndarray \<times> bytes option) list \<Rightarrow> 'r ndarray" where
  "spec_tensor L parts =
     \<lparr>dtype = result_type L (map dtype (spec_order parts)),
      trailing = trailing (hd (spec_order parts)),
      rows = concat (map rows (spec_order parts))\<rparr>"

definition job_client :: "bytes \<Rightarrow> bytes" where
  "job_client k = takeWhile (\<lambda>c. c \<noteq> CHR ''#'') k"

definition job_req_id :: "bytes \<Rightarrow> bytes" where
  "job_req_id k = drop 1 (dropWhile (\<lambda>c. c \<noteq> CHR ''#'') k)"

definition spec_reply :: "('a, 'r) lib \<Rightarrow> bytes \<Rightarrow> ('r ndarray \<times> bytes option) list \<Rightarrow> frames" where
  "spec_reply L k parts =
     [job_client k,
      dumps_md L \<lparr>md_dtype = dtype (spec_tensor L parts),
                  md_shape = length (rows (spec_tensor L parts)) # trailing (spec_tensor L parts)\<rparr>,
      tobytes L (spec_tensor L parts),
      job_req_id k]"

text \<open>
  A job is well formed when its id has exactly one \<^verbatim>\<open>#\<close>, it has parts, every partial id is
  an integer literal and all parts have the same shape after the first axis.
\<close>

definition wf_job :: "bytes \<Rightarrow> ('r ndarray \<times> bytes option) list \<Rightarrow> bool" where
  "wf_job k parts =
     (length (py_split CHR ''#'' k) = 2 \<and> parts \<noteq> [] \<and>
      list_all (\<lambda>p. part_key (snd p) \<noteq> None) parts \<and>
      list_all (\<lambda>p. trailing (fst p) = trailing (fst (hd parts))) parts)"

text \<open>
  The jobs a scan finds finished, and the consistency of the tables: the keys of
  \<^verbatim>\<open>pending_result\<close> are distinct, every job with parts is registered and its checksum
  is the number of rows of its parts, and no checksum is kept for a job without parts.
\<close>

definition remove_jobs :: "bytes list \<Rightarrow> (bytes, 'v) dict \<Rightarrow> (bytes, 'v) dict" where
  "remove_jobs ks d = filter (\<lambda>kv. fst kv \<notin> set ks) d"

definition finished :: "'r sink \<Rightarrow> (bytes \<times> ('r ndarray \<times> bytes option) list) list" where
  "finished st =
     filter (\<lambda>kv. complete (pending_checksum st) (job_checksum st) (fst kv)) (pending_result st)"

definition sink_inv :: "'r sink \<Rightarrow> bool" where
  "sink_inv st =
     (distinct (map fst (pending_result st)) \<and>
      list_all (\<lambda>(k, parts). map_of (pending_checksum st) k = Some (rowsum parts) \<and>
                            map_of (job_checksum st) k \<noteq> None) (pending_result st) \<and>
      list_all (\<lambda>(k, n). map_of (pending_result st) k \<noteq> None) (pending_checksum st))"


section \<open>Malformed envelopes at the ventilator\<close>

text \<open>What a turn of the loop does is independent of what was logged and sent before.\<close>

lemma vent_request_effects:
  "vent_request L (st\<lparr>effects := es @ effects st\<rparr>) r =
     map_option (map_outcome (\<lambda>s. s\<lparr>effects := es @ effects s\<rparr>)) (vent_request L st r)"
  by (simp add: vent_request_def effect_def value_error_def Let_def
        split: list.splits option.splits payload.splits)

lemma vent_run_effects:
  "vent_run L (st\<lparr>effects := es @ effects st\<rparr>) rs =
     map_option (map_outcome (\<lambda>s. s\<lparr>effects := es @ effects s\<rparr>)) (vent_run L st rs)"
proof (induction rs arbitrary: st)
  case Nil
  then show ?case by simp
next
  case (Cons r rs)
  show ?case
  proof (cases "vent_request L st r")
    case None
    then show ?thesis by (simp add: vent_request_effects)
  next
    case (Some o1)
    then show ?thesis
      using Cons.IH by (cases o1) (simp_all add: vent_request_effects)
  qed
qed

lemma wrong_frames:
  "length request \<noteq> 3 \<Longrightarrow> vent_request L st request = Some (Ok (value_error request st))"
  by (auto simp add: vent_request_def split: list.splits)

text \<open>
  Claim C6. A message that does not have three frames makes the unpacking of line 259 raise
  ValueError: the turn ends normally, the only effect is the error log, the request counter is
  what it was and nothing goes to the sink or to the workers. The loop then serves the messages
  that follow exactly as it would have served them without the malformed one, the error log
  apart.
\<close>

theorem wrong_frame_count_dropped:
  assumes "length request \<noteq> 3"
  shows "vent_request L st request =
           Some (Ok (st\<lparr>effects :=
             effects st @ [Error (Wrongly_formatted (length request) request)]\<rparr>))
       \<and> vent_run L (st\<lparr>effects := es\<rparr>) (request # rest) =
           map_option (map_outcome (\<lambda>s. s\<lparr>effects :=
               es @ Error (Wrongly_formatted (length request) request) # effects s\<rparr>))
             (vent_run L (st\<lparr>effects := []\<rparr>) rest)"
proof -
  let ?E = "Error (Wrongly_formatted (length request) request)"
  have a: "vent_request L s request = Some (Ok (s\<lparr>effects := effects s @ [?E]\<rparr>))" for s
    using assms by (simp add: wrong_frames value_error_def effect_def)
  have "vent_run L (st\<lparr>effects := es\<rparr>) (request # rest) =
          vent_run L (st\<lparr>effects := es @ [?E]\<rparr>) rest"
    by (simp add: a)
  also have "\<dots> = vent_run L
      ((st\<lparr>effects := []\<rparr>)\<lparr>effects := (es @ [?E]) @ effects (st\<lparr>effects := []\<rparr>)\<rparr>) rest"
    by simp
  also have "\<dots> = map_option (map_outcome (\<lambda>s. s\<lparr>effects := (es @ [?E]) @ effects s\<rparr>))
      (vent_run L (st\<lparr>effects := []\<rparr>) rest)"
    by (rule vent_run_effects)
  finally show ?thesis using a by simp
qed

theorem wrong_frame_count_dropped_witness:
  "vent_request (example_lib 2) vent_init [''c'', ''7''] =
     Some (Ok \<lparr>num_req = 0, effects = [Error (Wrongly_formatted 2 [''c'', ''7''])]\<rparr>)
   \<and> vent_run (example_lib 2) vent_init [[''c'', ''7''], [''c'', ''abc'', ''7'']] =
     Some (Ok \<lparr>num_req = 1, effects =
       [Error (Wrongly_formatted 2 [''c'', ''7'']), Info (New_encode_request 7 ''c''),
        Sink_send [''c'', ''REGISTER'', ''3'', ''7''],
        Backend_send [''c#7@0'', ''ab''], Backend_send [''c#7@2'', ''c'']]\<rparr>)"
proof -
  have r: "vent_run (example_lib 2) \<lparr>num_req = 0, effects = []\<rparr> [[''c'', ''abc'', ''7'']] =
     Some (Ok \<lparr>num_req = 1, effects =
       [Info (New_encode_request 7 ''c''),
        Sink_send [''c'', ''REGISTER'', ''3'', ''7''],
        Backend_send [''c#7@0'', ''ab''], Backend_send [''c#7@2'', ''c'']]\<rparr>)"
    by code_simp
  have h: "length [''c'', ''7''] \<noteq> 3" by simp
  show ?thesis
    using wrong_frame_count_dropped
            [OF h, of "example_lib 2" vent_init "[]" "[[''c'', ''abc'', ''7'']]"] r
    by (simp add: vent_init_def del: vent_run.simps)
qed

section \<open>Request ids, integer literals and the sentinels\<close>

text \<open>An integer literal consists of whitespace, a sign, digits and underscores only.\<close>

lemma mem_dropWhile: "x \<in> set xs \<Longrightarrow> \<not> P x \<Longrightarrow> x \<in> set (dropWhile P xs)"
  by (induction xs) auto

lemma mem_py_strip: "c \<in> set b \<Longrightarrow> \<not> py_isspace c \<Longrightarrow> c \<in> set (py_strip b)"
  by (simp add: py_strip_def mem_dropWhile)

lemma digits_ok_chars: "digits_ok ds \<Longrightarrow> c \<in> set ds \<Longrightarrow> py_isdigit c \<or> c = CHR ''_''"
  by (induction ds rule: digits_ok.induct) (auto split: if_splits)

lemma py_int_chars:
  assumes "py_int b = Some r" "c \<in> set b"
  shows "py_isspace c \<or> py_isdigit c \<or> c = CHR ''_'' \<or> c = CHR ''-'' \<or> c = CHR ''+''"
proof (cases "py_isspace c")
  case True
  then show ?thesis by simp
next
  case False
  with assms(2) have m: "c \<in> set (py_strip b)" by (rule_tac mem_py_strip)
  then obtain x xs where s: "py_strip b = x # xs" by (cases "py_strip b") auto
  from assms(1) s have "(x = CHR ''-'' \<and> digits_ok xs) \<or> (x = CHR ''+'' \<and> digits_ok xs) \<or> digits_ok (x # xs)"
    by (auto simp add: py_int_def split: if_splits)
  with m s show ?thesis
    using digits_ok_chars [of xs c] digits_ok_chars [of "x # xs" c] by auto
qed

lemma sentinel_no_int:
  assumes "CHR ''#'' \<in> set b \<or> CHR ''@'' \<in> set b"
  shows "py_int b = None"
proof (rule ccontr)
  assume "py_int b \<noteq> None"
  then obtain r where r: "py_int b = Some r" by auto
  from assms show False
  proof
    assume "CHR ''#'' \<in> set b"
    from py_int_chars [OF r this] show False by (simp add: py_isspace_def py_isdigit_def)
  next
    assume "CHR ''@'' \<in> set b"
    from py_int_chars [OF r this] show False by (simp add: py_isspace_def py_isdigit_def)
  qed
qed









section \<open>The configuration request\<close>

text \<open>
  Claim C7, as the claim states it, fails: a \<^verbatim>\<open>SHOW_CONFIG\<close> envelope whose request id is
  no integer literal raises ValueError in the log call of line 261 and is dropped; nothing is
  forwarded to the sink.
\<close>

theorem show_config_bad_req_id_dropped:
  "vent_request (example_lib 8) vent_init [''c'', show_config, ''x''] =
     Some (Ok \<lparr>num_req = 0,
               effects = [Error (Wrongly_formatted 3 [''c'', ''SHOW_CONFIG'', ''x''])]\<rparr>)"
  by code_simp

text \<open>
  Claim C7, amended. For a three-frame envelope whose payload is \<^verbatim>\<open>SHOW_CONFIG\<close>, whose
  request id is an integer literal and whose client address is ASCII, the ventilator logs the
  request and sends \<^verbatim>\<open>[client, SHOW_CONFIG, config_json, req_id]\<close> on the pair socket, and
  does nothing else; the sink, on that message, sleeps 100 ms, logs, and publishes exactly
  \<^verbatim>\<open>[client, config_json, req_id]\<close>.
\<close>

theorem show_config_forwarded:
  "py_int req_id = Some r \<Longrightarrow> is_ascii client \<Longrightarrow>
   vent_request L st [client, show_config, req_id] =
      Some (Ok (st\<lparr>effects := effects st @ [Info (New_config_request r client),
              Sink_send [client, show_config, config_json L (num_req st) client, req_id]]\<rparr>))
   \<and> sink_frontend s [client, show_config, config_json L (num_req st) client, req_id] =
      Ok (s\<lparr>emitted := emitted s @ [Sleep_ms 100, Info (Send_config client),
             Publish [client, config_json L (num_req st) client, req_id]]\<rparr>)"
  by (simp add: vent_request_def effect_def sink_frontend_def emit_def show_config_def
        new_job_def)

theorem show_config_forwarded_witness:
  "py_int ''7'' = Some 7 \<and> is_ascii ''c'' \<and>
   vent_request (example_lib 8) vent_init [''c'', show_config, ''7''] =
      Some (Ok \<lparr>num_req = 0, effects = [Info (New_config_request 7 ''c''),
              Sink_send [''c'', ''SHOW_CONFIG'', ''{}'', ''7'']]\<rparr>)
   \<and> sink_frontend (sink_init :: char sink) [''c'', show_config, ''{}'', ''7''] =
      Ok \<lparr>pending_checksum = [], pending_result = [], job_checksum = [],
          emitted = [Sleep_ms 100, Info (Send_config ''c''),
             Publish [''c'', ''{}'', ''7'']]\<rparr>"
proof -
  have h1: "py_int ''7'' = Some 7" by code_simp
  have h2: "is_ascii ''c''" by code_simp
  show ?thesis
    using show_config_forwarded [OF h1 h2, of "example_lib 8" vent_init sink_init] h1 h2
    by (simp add: vent_init_def sink_init_def example_lib_def show_config_def)
qed

section \<open>The partition of a batch\<close>

lemma py_slice_chunk: "py_slice xs (int s) (int s + int m) = take m (drop s xs)"
  by (auto simp add: py_slice_def Let_def min_def nat_diff_distrib' nat_add_distrib)

lemma chunk_count: "0 < m \<Longrightarrow> i < (n + m - 1) div m \<longleftrightarrow> i * m < (n::nat)"
proof -
  assume m: "0 < m"
  have "i < (n + m - 1) div m \<longleftrightarrow> Suc i \<le> (n + m - 1) div m" by auto
  also have "\<dots> \<longleftrightarrow> Suc i * m \<le> n + m - 1" using m by (simp only: less_eq_div_iff_mult_less_eq)
  also have "\<dots> \<longleftrightarrow> i * m < n" using m by auto
  finally show ?thesis .
qed

lemma partition_from:
  assumes m: "0 < m" "max_batch_size L = int m"
  shows "i \<le> (length seqs + m - 1) div m \<Longrightarrow>
     partition L job_id seqs (i * m) out =
       Some (out @ map (\<lambda>j. Backend_send [job_id @ ''@'' @ dec (j * m),
                                dumps L (take m (drop (j * m) seqs))])
                     [i..<(length seqs + m - 1) div m])"
proof (induction "(length seqs + m - 1) div m - i" arbitrary: i out)
  case 0
  then have "i = (length seqs + m - 1) div m" by simp
  then have "\<not> i * m < length seqs" using chunk_count [OF m(1), of i "length seqs"] by simp
  then show ?case using \<open>i = _\<close> by (subst partition.simps) simp
next
  case (Suc d)
  let ?k = "(length seqs + m - 1) div m"
  from Suc have lt: "i < ?k" by simp
  then have s: "i * m < length seqs" using chunk_count [OF m(1), of i "length seqs"] by simp
  let ?tmp = "take m (drop (i * m) seqs)"
  have ne: "?tmp \<noteq> []" using s m by simp
  let ?out = "out @ [Backend_send [job_id @ ''@'' @ dec (i * m), dumps L ?tmp]]"
  have step: "partition L job_id seqs (i * m) out = partition L job_id seqs (i * m + length ?tmp) ?out"
  proof -
    have sl: "py_slice seqs (int (i * m)) (int (i * m) + max_batch_size L) = ?tmp"
      by (simp only: m(2) py_slice_chunk)
    have "partition L job_id seqs (i * m) out =
       (if i * m < length seqs then
        partition L job_id seqs
          (i * m + length (py_slice seqs (int (i * m)) (int (i * m) + max_batch_size L)))
          (if py_slice seqs (int (i * m)) (int (i * m) + max_batch_size L) \<noteq> []
           then out @ [Backend_send [job_id @ ''@'' @ dec (i * m),
                         dumps L (py_slice seqs (int (i * m)) (int (i * m) + max_batch_size L))]]
           else out)
      else Some out)"
      by (rule partition.simps)
    then show ?thesis unfolding sl using s ne by (simp only: if_True if_False not_False_eq_True)
  qed
  have rest: "partition L job_id seqs (i * m + length ?tmp) ?out =
      Some (?out @ map (\<lambda>j. Backend_send [job_id @ ''@'' @ dec (j * m),
                                dumps L (take m (drop (j * m) seqs))]) [Suc i..<?k])"
  proof (cases "Suc i < ?k")
    case True
    then have "Suc i * m < length seqs" using chunk_count [OF m(1), of "Suc i" "length seqs"] by simp
    then have "m \<le> length seqs - i * m" by simp
    then have "i * m + length ?tmp = Suc i * m" by simp
    moreover have "d = ?k - Suc i" using Suc by simp
    ultimately show ?thesis using Suc.hyps(1) [of "Suc i" ?out] True by (simp add: add.commute)
  next
    case False
    with lt have e: "Suc i = ?k" by simp
    then have "\<not> Suc i * m < length seqs" using chunk_count [OF m(1), of "Suc i" "length seqs"] by simp
    then have "length seqs - i * m \<le> m" by simp
    then have "i * m + length ?tmp = length seqs" using s by simp
    then show ?thesis using e by (subst partition.simps) simp
  qed
  have "[i..<?k] = i # [Suc i..<?k]" using lt by (simp add: upt_conv_Cons)
  with step rest show ?case by simp
qed

lemma partition_spec_chunks:
  assumes "0 < m" "max_batch_size L = int m"
  shows "partition L job_id seqs 0 [] =
     Some (map (\<lambda>(s_idx, chunk). Backend_send [job_id @ ''@'' @ dec s_idx, dumps L chunk])
             (spec_chunks m seqs))"
  using partition_from [OF assms, of 0 seqs job_id "[]"]
  by (simp add: spec_chunks_def comp_def)

lemma concat_chunks: "concat (map (\<lambda>i. take m (drop (i * m) xs)) [0..<k]) = take (k * m) xs"
proof (induction k)
  case 0
  then show ?case by simp
next
  case (Suc k)
  have "take (Suc k * m) xs = take (k * m + m) xs" by (simp add: add.commute)
  also have "\<dots> = take (k * m) xs @ take m (drop (k * m) xs)" by (rule take_add)
  finally show ?case using Suc by simp
qed

lemma spec_chunks_cover: "0 < m \<Longrightarrow> concat (map snd (spec_chunks m seqs)) = seqs"
proof -
  assume m: "0 < m"
  let ?k = "(length seqs + m - 1) div m"
  have "\<not> ?k * m < length seqs" using chunk_count [OF m, of ?k "length seqs"] by simp
  then show ?thesis by (simp add: spec_chunks_def comp_def concat_chunks)
qed

lemma spec_chunks_sizes:
  assumes "0 < m" "c \<in> set (map snd (spec_chunks m seqs))"
  shows "0 < length c \<and> length c \<le> m"
proof -
  obtain i where i: "i < (length seqs + m - 1) div m" "c = take m (drop (i * m) seqs)"
    using assms(2) by (auto simp add: spec_chunks_def)
  then have "i * m < length seqs" using chunk_count [OF assms(1)] by simp
  then show ?thesis using i assms(1) by simp
qed

lemma spec_chunks_offsets:
  "map fst (spec_chunks m seqs) = map (\<lambda>i. i * m) [0..<length (spec_chunks m seqs)]"
  by (simp add: spec_chunks_def comp_def)

lemma spec_chunks_slices:
  "(s_idx, chunk) \<in> set (spec_chunks m seqs) \<Longrightarrow> chunk = take m (drop s_idx seqs)"
  by (auto simp add: spec_chunks_def)

lemma spec_chunks_one_more:
  "0 < m \<Longrightarrow> length seqs = m + 1 \<Longrightarrow> map (\<lambda>p. length (snd p)) (spec_chunks m seqs) = [m, 1]"
proof -
  assume a: "0 < m" "length seqs = m + 1"
  then have "length seqs + m - 1 = 2 * m" by simp
  then have "(length seqs + m - 1) div m = 2" using a by simp
  then have "[0..<(length seqs + m - 1) div m] = [0, 1]" by (simp add: upt_conv_Cons)
  then show ?thesis using a by (simp add: spec_chunks_def)
qed

lemma encode_small:
  assumes "msg \<noteq> show_config" "py_int req_id = Some r" "loads L msg = Some (Seq seqs)"
    "int (length seqs) \<le> max_batch_size L"
  shows "vent_request L st [client, msg, req_id] =
      Some (Ok (st\<lparr>num_req := num_req st + 1,
                    effects := effects st @ [Info (New_encode_request r client),
                      Sink_send [client, new_job, dec (length seqs), req_id],
                      Backend_send [client @ ''#'' @ req_id, msg]]\<rparr>))"
  using assms by (simp add: vent_request_def effect_def Let_def)

lemma encode_large:
  assumes "msg \<noteq> show_config" "py_int req_id = Some r" "loads L msg = Some (Seq seqs)"
    "max_batch_size L = int m" "0 < m" "m < length seqs"
  shows "vent_request L st [client, msg, req_id] =
      Some (Ok (st\<lparr>num_req := num_req st + 1,
                    effects := effects st @ [Info (New_encode_request r client),
                      Sink_send [client, new_job, dec (length seqs), req_id]] @
                      map (\<lambda>(s_idx, chunk).
                             Backend_send [client @ ''#'' @ req_id @ ''@'' @ dec s_idx, dumps L chunk])
                        (spec_chunks m seqs)\<rparr>))"
  using assms partition_spec_chunks [OF assms(5,4), of "client @ ''#'' @ req_id" seqs]
  by (simp add: vent_request_def effect_def Let_def)

section \<open>A batch limit below one\<close>

text \<open>
  With a batch limit of zero or less, a slice taken inside the batch never reaches its end:
  the loop of lines 286 to 291 does not terminate on a batch that is not empty.
\<close>

lemma py_slice_stuck:
  assumes "m \<le> 0" "s < length seqs"
  shows "s + length (py_slice seqs (int s) (int s + m)) < length seqs"
  using assms by (auto simp add: py_slice_def Let_def min_def max_def)

lemma partition_diverges:
  assumes "max_batch_size L \<le> 0" "s_idx < length seqs"
  shows "partition L job_id seqs s_idx out = None"
proof (rule ccontr)
  assume "partition L job_id seqs s_idx out \<noteq> None"
  then obtain y where y: "partition L job_id seqs s_idx out = Some y" by auto
  have "\<not> (max_batch_size L \<le> 0 \<and> s_idx < length seqs)"
  proof (rule partition.raw_induct
      [where P = "\<lambda>L job_id seqs s_idx out y. \<not> (max_batch_size L \<le> 0 \<and> s_idx < length seqs)",
        OF _ y])
    fix p :: "('a, 'b) lib \<Rightarrow> bytes \<Rightarrow> 'a list \<Rightarrow> nat \<Rightarrow> event list \<Rightarrow> event list option"
    fix L job_id seqs s_idx out y
    assume ih: "\<And>L job_id seqs s_idx out y.
        p L job_id seqs s_idx out = Some y \<Longrightarrow> \<not> (max_batch_size L \<le> 0 \<and> s_idx < length seqs)"
    assume eq: "(if s_idx < length seqs then
        p L job_id seqs
          (s_idx + length (py_slice seqs (int s_idx) (int s_idx + max_batch_size L)))
          (if py_slice seqs (int s_idx) (int s_idx + max_batch_size L) \<noteq> []
           then out @ [Backend_send [job_id @ ''@'' @ dec s_idx,
                         dumps L (py_slice seqs (int s_idx) (int s_idx + max_batch_size L))]]
           else out)
      else Some out) = Some y"
    show "\<not> (max_batch_size L \<le> 0 \<and> s_idx < length seqs)"
    proof
      assume a: "max_batch_size L \<le> 0 \<and> s_idx < length seqs"
      let ?s = "s_idx + length (py_slice seqs (int s_idx) (int s_idx + max_batch_size L))"
      from a have lt: "?s < length seqs" by (simp add: py_slice_stuck)
      from a eq obtain out' where "p L job_id seqs ?s out' = Some y"
        by (simp split: if_splits)
      from ih [OF this] a lt show False by simp
    qed
  qed
  with assms show False by simp
qed

lemma vent_request_diverges:
  assumes "msg \<noteq> show_config" "py_int req_id = Some r" "loads L msg = Some (Seq seqs)"
    "max_batch_size L \<le> 0" "seqs \<noteq> []"
  shows "vent_request L st [client, msg, req_id] = None"
proof -
  from assms(5) have "0 < length seqs" by simp
  from partition_diverges [OF assms(4) this]
  have "partition L (client @ ''#'' @ req_id) seqs 0 [] = None" .
  moreover from assms(4,5) have "int (length seqs) > max_batch_size L" by (cases seqs) simp_all
  ultimately show ?thesis using assms(1,2,3) by (simp add: vent_request_def Let_def)
qed

section \<open>Encode requests\<close>

text \<open>
  Claim C2, as the claim states it, fails at two inputs. An encode request of two items under
  a batch limit of eight, whose request id is \<^verbatim>\<open>x\<close>, raises ValueError in the log call of
  line 275 and is dropped: no chunk is pushed. And under a batch limit of zero the turn on an
  encode request of one item never ends.
\<close>

theorem encode_request_unserved:
  "vent_request (example_lib 8) vent_init [''c'', ''ab'', ''x''] =
     Some (Ok \<lparr>num_req = 0, effects = [Error (Wrongly_formatted 3 [''c'', ''ab'', ''x''])]\<rparr>)
   \<and> vent_request (example_lib 0) vent_init [''c'', ''a'', ''7''] = None"
proof
  show "vent_request (example_lib 8) vent_init [''c'', ''ab'', ''x''] =
     Some (Ok \<lparr>num_req = 0, effects = [Error (Wrongly_formatted 3 [''c'', ''ab'', ''x''])]\<rparr>)"
    by code_simp
  have "''a'' \<noteq> show_config" by (simp add: show_config_def)
  moreover have "py_int ''7'' = Some 7" by code_simp
  moreover have "loads (example_lib 0) ''a'' = Some (Seq ''a'')" by (simp add: example_lib_def)
  moreover have "max_batch_size (example_lib 0) \<le> 0" by (simp add: example_lib_def)
  moreover have "''a'' \<noteq> []" by simp
  ultimately show "vent_request (example_lib 0) vent_init [''c'', ''a'', ''7''] = None"
    by (rule vent_request_diverges)
qed

text \<open>
  Claim C2, amended. For every three-frame envelope that is no configuration request, whose
  request id is an integer literal and whose payload decodes to a list of \<open>n\<close> items, and for
  a batch limit \<open>m\<close> of at least one: the ventilator counts the request, registers the job at
  the sink with \<open>n\<close>, and then, if \<open>n \<le> m\<close>, pushes the single chunk
  \<^verbatim>\<open>[JobId, payload]\<close> with no \<^verbatim>\<open>@\<close> suffix; otherwise it pushes, in this order, the chunks
  \<^verbatim>\<open>[JobId @ s_idx, dumps(chunk)]\<close> of \<open>spec_chunks\<close>: the offsets are \<open>0, m, 2m, \<dots>\<close>, each
  chunk is the slice of at most \<open>m\<close> items at its offset and is not empty, the chunks in order
  concatenate to the batch, and \<open>n = m + 1\<close> gives two chunks of sizes \<open>m\<close> and \<open>1\<close>.
\<close>

theorem encode_request_chunks:
  assumes "msg \<noteq> show_config" "py_int req_id = Some r" "loads L msg = Some (Seq seqs)"
    "max_batch_size L = int m" "0 < m"
  shows "vent_request L st [client, msg, req_id] =
      Some (Ok (st\<lparr>num_req := num_req st + 1,
                    effects := effects st @ [Info (New_encode_request r client),
                      Sink_send [client, new_job, dec (length seqs), req_id]] @
                      (if length seqs \<le> m then [Backend_send [client @ ''#'' @ req_id, msg]]
                       else map (\<lambda>(s_idx, chunk).
                             Backend_send [client @ ''#'' @ req_id @ ''@'' @ dec s_idx, dumps L chunk])
                        (spec_chunks m seqs))\<rparr>))
    \<and> map fst (spec_chunks m seqs) = map (\<lambda>i. i * m) [0..<length (spec_chunks m seqs)]
    \<and> (\<forall>(s_idx, chunk) \<in> set (spec_chunks m seqs).
          chunk = take m (drop s_idx seqs) \<and> 0 < length chunk \<and> length chunk \<le> m)
    \<and> concat (map snd (spec_chunks m seqs)) = seqs
    \<and> (length seqs = m + 1 \<longrightarrow> map (\<lambda>p. length (snd p)) (spec_chunks m seqs) = [m, 1])"
proof (intro conjI)
  show "vent_request L st [client, msg, req_id] =
      Some (Ok (st\<lparr>num_req := num_req st + 1,
                    effects := effects st @ [Info (New_encode_request r client),
                      Sink_send [client, new_job, dec (length seqs), req_id]] @
                      (if length seqs \<le> m then [Backend_send [client @ ''#'' @ req_id, msg]]
                       else map (\<lambda>(s_idx, chunk).
                             Backend_send [client @ ''#'' @ req_id @ ''@'' @ dec s_idx, dumps L chunk])
                        (spec_chunks m seqs))\<rparr>))"
  proof (cases "length seqs \<le> m")
    case True
    then show ?thesis using encode_small [OF assms(1,2,3), of st client] assms(4) by simp
  next
    case False
    then show ?thesis using encode_large [OF assms, of st client] by simp
  qed
  show "map fst (spec_chunks m seqs) = map (\<lambda>i. i * m) [0..<length (spec_chunks m seqs)]"
    by (rule spec_chunks_offsets)
  show "\<forall>(s_idx, chunk) \<in> set (spec_chunks m seqs).
          chunk = take m (drop s_idx seqs) \<and> 0 < length chunk \<and> length chunk \<le> m"
  proof (clarify, intro conjI)
    fix s_idx chunk assume a: "(s_idx, chunk) \<in> set (spec_chunks m seqs)"
    then show "chunk = take m (drop s_idx seqs)" by (rule spec_chunks_slices)
    from a have "chunk \<in> set (map snd (spec_chunks m seqs))" by force
    from spec_chunks_sizes [OF assms(5) this]
    show "0 < length chunk" "length chunk \<le> m" by simp_all
  qed
  show "concat (map snd (spec_chunks m seqs)) = seqs" using assms(5) by (rule spec_chunks_cover)
  show "length seqs = m + 1 \<longrightarrow> map (\<lambda>p. length (snd p)) (spec_chunks m seqs) = [m, 1]"
    using spec_chunks_one_more [OF assms(5), of seqs] by simp
qed

theorem encode_request_chunks_witness:
  "''abc'' \<noteq> show_config \<and> py_int ''7'' = Some 7 \<and> loads (example_lib 2) ''abc'' = Some (Seq ''abc'')
   \<and> max_batch_size (example_lib 2) = int 2 \<and> (0::nat) < 2 \<and> length ''abc'' = 2 + 1
   \<and> vent_request (example_lib 2) vent_init [''c'', ''abc'', ''7''] =
       Some (Ok \<lparr>num_req = 1, effects = [Info (New_encode_request 7 ''c''),
          Sink_send [''c'', ''REGISTER'', ''3'', ''7''],
          Backend_send [''c#7@0'', ''ab''], Backend_send [''c#7@2'', ''c'']]\<rparr>)
   \<and> spec_chunks 2 ''abc'' = [(0, ''ab''), (2, ''c'')]
   \<and> concat (map snd (spec_chunks 2 ''abc'')) = ''abc''
   \<and> map (\<lambda>p. length (snd p)) (spec_chunks 2 ''abc'') = [2, 1]"
proof -
  have h1: "''abc'' \<noteq> show_config" by (simp add: show_config_def)
  have h2: "py_int ''7'' = Some 7" by code_simp
  have h3: "loads (example_lib 2) ''abc'' = Some (Seq ''abc'')" by (simp add: example_lib_def)
  have h4: "max_batch_size (example_lib 2) = int 2" by (simp add: example_lib_def)
  have h5: "(0::nat) < 2" by simp
  have c: "spec_chunks 2 ''abc'' = [(0, ''ab''), (2, ''c'')]" by code_simp
  have d: "dec (length ''abc'') = ''3''" "dec 0 = ''0''" "dec 2 = ''2''" by code_simp+
  note t = encode_request_chunks [OF h1 h2 h3 h4 h5, of vent_init "''c''"]
  from t have "vent_request (example_lib 2) vent_init [''c'', ''abc'', ''7''] =
       Some (Ok \<lparr>num_req = 1, effects = [Info (New_encode_request 7 ''c''),
          Sink_send [''c'', ''REGISTER'', ''3'', ''7''],
          Backend_send [''c#7@0'', ''ab''], Backend_send [''c#7@2'', ''c'']]\<rparr>)"
    unfolding c d by (simp add: d vent_init_def new_job_def example_lib_def)
  moreover from t have "concat (map snd (spec_chunks 2 ''abc'')) = ''abc''" by blast
  moreover from t have "map (\<lambda>p. length (snd p)) (spec_chunks 2 ''abc'') = [2, 1]" by simp
  ultimately show ?thesis using h1 h2 h3 h4 c by simp
qed

section \<open>Sentinels in the client address and in the request id\<close>

text \<open>
  Claim C9, as the claim states it, fails: an encode request from the client address
  \<^verbatim>\<open>a#b\<close> is registered at the sink and its chunk is pushed to the workers.
\<close>

theorem client_sentinel_not_rejected:
  "vent_request (example_lib 8) vent_init [''a#b'', ''xy'', ''1''] =
     Some (Ok \<lparr>num_req = 1, effects = [Info (New_encode_request 1 ''a#b''),
        Sink_send [''a#b'', ''REGISTER'', ''2'', ''1''], Backend_send [''a#b#1'', ''xy'']]\<rparr>)"
  by code_simp

text \<open>
  Claim C9, amended. A request whose request id contains \<^verbatim>\<open>#\<close> or \<^verbatim>\<open>@\<close> is dropped before
  anything happens: such a request id is no integer literal, so the log call of line 261 or
  275 raises ValueError; the request counter is unchanged, no job is registered and no chunk is
  pushed. The client address is never inspected: an encode request is registered and
  dispatched whatever bytes its client address contains.
\<close>

theorem sentinel_in_request_id_rejected:
  "(CHR ''#'' \<in> set req_id \<or> CHR ''@'' \<in> set req_id \<longrightarrow>
      vent_request L st [client, msg, req_id] =
        Some (Ok (st\<lparr>effects :=
          effects st @ [Error (Wrongly_formatted 3 [client, msg, req_id])]\<rparr>)))
   \<and> (msg \<noteq> show_config \<and> py_int req_id = Some r \<and> loads L msg = Some (Seq seqs) \<and>
        int (length seqs) \<le> max_batch_size L \<longrightarrow>
      vent_request L st [client, msg, req_id] =
        Some (Ok (st\<lparr>num_req := num_req st + 1,
                    effects := effects st @ [Info (New_encode_request r client),
                      Sink_send [client, new_job, dec (length seqs), req_id],
                      Backend_send [client @ ''#'' @ req_id, msg]]\<rparr>)))"
proof (intro conjI impI)
  assume "CHR ''#'' \<in> set req_id \<or> CHR ''@'' \<in> set req_id"
  then have "py_int req_id = None" by (rule sentinel_no_int)
  then show "vent_request L st [client, msg, req_id] =
        Some (Ok (st\<lparr>effects :=
          effects st @ [Error (Wrongly_formatted 3 [client, msg, req_id])]\<rparr>))"
    by (simp add: vent_request_def value_error_def effect_def)
next
  assume "msg \<noteq> show_config \<and> py_int req_id = Some r \<and> loads L msg = Some (Seq seqs) \<and>
        int (length seqs) \<le> max_batch_size L"
  then show "vent_request L st [client, msg, req_id] =
        Some (Ok (st\<lparr>num_req := num_req st + 1,
                    effects := effects st @ [Info (New_encode_request r client),
                      Sink_send [client, new_job, dec (length seqs), req_id],
                      Backend_send [client @ ''#'' @ req_id, msg]]\<rparr>))"
    using encode_small by blast
qed

theorem sentinel_in_request_id_rejected_witness:
  "(CHR ''#'' \<in> set ''7#1'' \<or> CHR ''@'' \<in> set ''7#1'') \<and>
   vent_request (example_lib 8) vent_init [''c'', ''xy'', ''7#1''] =
     Some (Ok \<lparr>num_req = 0, effects = [Error (Wrongly_formatted 3 [''c'', ''xy'', ''7#1''])]\<rparr>)
   \<and> ''xy'' \<noteq> show_config \<and> py_int ''1'' = Some 1 \<and>
     loads (example_lib 8) ''xy'' = Some (Seq ''xy'') \<and>
     int (length ''xy'') \<le> max_batch_size (example_lib 8) \<and>
   vent_request (example_lib 8) vent_init [''a#b'', ''xy'', ''1''] =
     Some (Ok \<lparr>num_req = 1, effects = [Info (New_encode_request 1 ''a#b''),
        Sink_send [''a#b'', ''REGISTER'', ''2'', ''1''], Backend_send [''a#b#1'', ''xy'']]\<rparr>)"
proof -
  have h1: "CHR ''#'' \<in> set ''7#1'' \<or> CHR ''@'' \<in> set ''7#1''" by simp
  have h2: "''xy'' \<noteq> show_config \<and> py_int ''1'' = Some 1 \<and>
     loads (example_lib 8) ''xy'' = Some (Seq ''xy'') \<and>
     int (length ''xy'') \<le> max_batch_size (example_lib 8)"
    by code_simp
  have d: "dec (length ''xy'') = ''2''" by code_simp
  from sentinel_in_request_id_rejected
         [of "''7#1''" "example_lib 8" vent_init "''c''" "''xy''" 1 "''xy''"] h1
  have a: "vent_request (example_lib 8) vent_init [''c'', ''xy'', ''7#1''] =
     Some (Ok \<lparr>num_req = 0, effects = [Error (Wrongly_formatted 3 [''c'', ''xy'', ''7#1''])]\<rparr>)"
    by (simp add: vent_init_def)
  from sentinel_in_request_id_rejected
         [of "''1''" "example_lib 8" vent_init "''a#b''" "''xy''" 1 "''xy''"] h2
  have b: "vent_request (example_lib 8) vent_init [''a#b'', ''xy'', ''1''] =
     Some (Ok \<lparr>num_req = 1, effects = [Info (New_encode_request 1 ''a#b''),
        Sink_send [''a#b'', ''REGISTER'', ''2'', ''1''], Backend_send [''a#b#1'', ''xy'']]\<rparr>)"
    unfolding d by (simp add: vent_init_def new_job_def)
  show ?thesis using h1 h2 a b by simp
qed

section \<open>The frames of a worker result\<close>

text \<open>
  Claim C10, as the claim states it, fails: \<^verbatim>\<open>send_ndarray\<close> always appends its
  \<^verbatim>\<open>req_id\<close> argument, so a worker result has four frames, not three.
\<close>

theorem worker_result_not_three_frames:
  "worker_send (example_lib 8) ''c#7'' \<lparr>dtype = ''u1'', trailing = [], rows = ''ab''\<rparr> =
     [''c#7'', ''u1'', ''ab'', []]
   \<and> length (worker_send (example_lib 8) ''c#7''
        \<lparr>dtype = ''u1'', trailing = [], rows = ''ab''\<rparr>) \<noteq> 3"
  by (simp add: worker_send_def send_ndarray_def example_lib_def)

text \<open>
  Claim C10, amended. The result message of a worker has four frames: the chunk id, the JSON
  text of the header dict with the keys \<^verbatim>\<open>dtype\<close> and \<^verbatim>\<open>shape\<close>, the buffer of the tensor,
  and an empty frame (the default \<^verbatim>\<open>req_id\<close>). The sink reads the first three frames of a
  worker message and ignores whatever follows them.
\<close>

theorem worker_result_frames:
  "worker_send L chunk_id X =
     [chunk_id, dumps_md L \<lparr>md_dtype = dtype X, md_shape = length (rows X) # trailing X\<rparr>,
      tobytes L X, []]
   \<and> sink_receiver L st (chunk_id # header # buffer # extra) =
       sink_receiver L st [chunk_id, header, buffer]"
  by (simp add: worker_send_def send_ndarray_def shape_def sink_receiver_def
        split: sum.splits)

section \<open>The configuration request leaves the job tables alone\<close>

text \<open>
  Claim C8. Whatever the state of the sink, a \<^verbatim>\<open>SHOW_CONFIG\<close> message on the pair socket
  is handled without an exception, and \<^verbatim>\<open>pending_checksum\<close>, \<^verbatim>\<open>pending_result\<close> and
  \<^verbatim>\<open>job_checksum\<close> are afterwards what they were before.
\<close>

theorem show_config_keeps_tables:
  "\<exists>st'. sink_frontend st [client_addr, show_config, info, req_id] = Ok st' \<and>
     pending_checksum st' = pending_checksum st \<and>
     pending_result st' = pending_result st \<and>
     job_checksum st' = job_checksum st"
  by (simp add: sink_frontend_def show_config_def new_job_def emit_def)

section \<open>The completion scan\<close>

lemma received_conv: "received pc k = (case map_of pc k of None \<Rightarrow> 0 | Some n \<Rightarrow> n)"
  by (simp add: received_def dd_get_def split: option.splits)


lemma received_update:
  "received (AList.update k n pc) k' = (if k' = k then n else received pc k')"
  by (simp add: received_conv AList.update_conv')







lemma store_tables:
  "job_checksum (sink_store st j X p) = job_checksum st"
  "emitted (sink_store st j X p) = emitted st"
  "received (pending_checksum (sink_store st j X p)) k =
     received (pending_checksum st) k + (if k = j then length (rows X) else 0)"
  by (simp_all add: sink_store_def dd_get_def received_conv AList.update_conv'
        split: option.splits prod.splits)

section \<open>Delivery of the finished jobs\<close>

lemma insort_key_map:
  "insort_key k (h x) (map h xs) = map h (insort_key (\<lambda>y. k (h y)) x xs)"
  by (induction xs) simp_all

lemma sort_key_map: "sort_key k (map h xs) = map h (sort_key (\<lambda>y. k (h y)) xs)"
  by (induction xs) (simp_all add: insort_key_map)

lemma those_part_keys:
  "list_all (\<lambda>p. part_key (snd p) \<noteq> None) parts \<Longrightarrow>
     those (map (\<lambda>x. part_key (snd x)) parts) = Some (map partial_id_of parts)"
  by (induction parts) (auto simp add: partial_id_of_def)

lemma sorted_parts_spec:
  assumes "list_all (\<lambda>p. part_key (snd p) \<noteq> None) parts"
  shows "sorted_parts parts = Some (spec_order parts)"
proof -
  have z: "zip (map partial_id_of parts) (map fst parts) =
             map (\<lambda>p. (partial_id_of p, fst p)) parts"
    by (induction parts) simp_all
  show ?thesis
    by (simp add: sorted_parts_def those_part_keys [OF assms] z sort_key_map spec_order_def
          comp_def)
qed

lemma py_split_nonempty: "py_split c k \<noteq> []"
  by (induction k) (auto split: list.splits)

lemma py_split_one: "py_split c k = [b] \<Longrightarrow> b = k \<and> c \<notin> set k"
  by (induction k arbitrary: b) (auto simp add: py_split_nonempty split: if_splits list.splits)

lemma py_split_two:
  "py_split c k = [a, b] \<Longrightarrow>
     a = takeWhile (\<lambda>x. x \<noteq> c) k \<and> b = drop 1 (dropWhile (\<lambda>x. x \<noteq> c) k)"
proof (induction k arbitrary: a)
  case Nil
  then show ?case by simp
next
  case (Cons x k)
  show ?case
  proof (cases "x = c")
    case True
    with Cons.prems have "a = []" "py_split c k = [b]" by simp_all
    with True py_split_one [of c k b] show ?thesis by simp
  next
    case False
    with Cons.prems obtain a' where "py_split c k = [a', b]" "a = x # a'"
      by (auto split: list.splits)
    with Cons.IH [of a'] False show ?thesis by simp
  qed
qed

lemma wf_split:
  "wf_job k parts \<Longrightarrow> py_split CHR ''#'' k = [job_client k, job_req_id k]"
proof -
  assume "wf_job k parts"
  then have "length (py_split CHR ''#'' k) = 2" by (simp add: wf_job_def)
  then obtain a b where ab: "py_split CHR ''#'' k = [a, b]"
    by (auto simp add: length_Suc_conv numeral_2_eq_2)
  from py_split_two [OF ab] ab show ?thesis by (simp add: job_client_def job_req_id_def)
qed

lemma concatenate_spec:
  assumes "wf_job k parts"
  shows "np_concatenate L (spec_order parts) = Inr (spec_tensor L parts)"
proof -
  from assms have ne: "parts \<noteq> []" by (simp add: wf_job_def)
  from assms have "list_all (\<lambda>p. trailing (fst p) = trailing (fst (hd parts))) parts"
    by (simp add: wf_job_def)
  then have tr: "p \<in> set parts \<Longrightarrow> trailing (fst p) = trailing (fst (hd parts))" for p
    by (simp add: list_all_iff)
  have s: "set (spec_order parts) = fst ` set parts" by (simp add: spec_order_def)
  have t: "trailing Y = trailing (fst (hd parts))" if "Y \<in> set (spec_order parts)" for Y
  proof -
    from that obtain p where "p \<in> set parts" "Y = fst p" unfolding s by blast
    then show ?thesis using tr by simp
  qed
  have "length (spec_order parts) = length parts" by (simp add: spec_order_def)
  with ne have "spec_order parts \<noteq> []" by auto
  then obtain X Xs where xs: "spec_order parts = X # Xs" by (cases "spec_order parts") simp_all
  have tX: "trailing X = trailing (fst (hd parts))" using t [of X] xs by simp
  have "trailing Y = trailing X" if "Y \<in> set Xs" for Y using t [of Y] that xs tX by simp
  then have "list_all (\<lambda>Y. trailing Y = trailing X) Xs" by (simp add: list_all_iff)
  then show ?thesis by (simp add: np_concatenate_def spec_tensor_def xs)
qed


lemma finished_scan_total:
  "list_all (\<lambda>kv. map_of jc (fst kv) \<noteq> None \<and> map_of pc (fst kv) \<noteq> None) pr \<Longrightarrow>
     finished_scan pr pc jc = Inr (filter (\<lambda>kv. complete pc jc (fst kv)) pr, pc)"
proof (induction pr)
  case Nil
  then show ?case by simp
next
  case (Cons kv pr)
  obtain k v where kv: "kv = (k, v)" by (cases kv)
  from Cons.prems kv obtain e n where e: "map_of jc k = Some e" and n: "map_of pc k = Some n"
    by auto
  from Cons.prems have "list_all (\<lambda>kv. map_of jc (fst kv) \<noteq> None \<and> map_of pc (fst kv) \<noteq> None) pr"
    by simp
  from Cons.IH [OF this] show ?case
    using kv e n by (simp add: dd_get_def complete_def received_conv)
qed

lemma remove_jobs_delete:
  "remove_jobs ks (AList.delete k d) = remove_jobs (k # ks) d"
  by (auto simp add: remove_jobs_def AList.delete_eq intro: filter_cong)

lemma send_ndarray_spec:
  "send_ndarray L (job_client k) (spec_tensor L parts) (job_req_id k) = spec_reply L k parts"
  by (simp add: send_ndarray_def spec_reply_def shape_def)

lemma deliver_step:
  assumes "wf_job k parts" "map_of (pending_result st) k \<noteq> None"
    "map_of (pending_checksum st) k \<noteq> None" "map_of (job_checksum st) k = Some e"
  shows "deliver L ((k, parts) # fin) st =
     deliver L fin (st\<lparr>emitted := emitted st @ [Info (Send_back e k),
                                                Publish (spec_reply L k parts)],
                       pending_result := AList.delete k (pending_result st),
                       pending_checksum := AList.delete k (pending_checksum st),
                       job_checksum := AList.delete k (job_checksum st)\<rparr>)"
proof -
  from assms(1) have p: "list_all (\<lambda>p. part_key (snd p) \<noteq> None) parts"
    by (simp add: wf_job_def)
  show ?thesis
    using assms(2,3,4)
    by (auto simp add: sorted_parts_spec [OF p] wf_split [OF assms(1)]
          concatenate_spec [OF assms(1)] send_ndarray_spec emit_def dict_pop_def Let_def)
qed



lemma inv_entry:
  assumes "sink_inv st" "(k, parts) \<in> set (pending_result st)"
  shows "map_of (pending_checksum st) k = Some (rowsum parts)"
    "map_of (job_checksum st) k \<noteq> None" "map_of (pending_result st) k \<noteq> None"
proof -
  from assms(1) have "list_all (\<lambda>(k, parts). map_of (pending_checksum st) k = Some (rowsum parts) \<and>
                            map_of (job_checksum st) k \<noteq> None) (pending_result st)"
    by (simp add: sink_inv_def)
  with assms(2) show "map_of (pending_checksum st) k = Some (rowsum parts)"
    "map_of (job_checksum st) k \<noteq> None"
    by (auto simp add: list_all_iff)
  from assms(2) have "k \<in> fst ` set (pending_result st)" by force
  then show "map_of (pending_result st) k \<noteq> None" by (simp add: map_of_eq_None_iff)
qed

lemma finished_entry:
  assumes "sink_inv st" "(k, parts) \<in> set (finished st)"
  shows "(k, parts) \<in> set (pending_result st)"
    "map_of (job_checksum st) k = Some (int (rowsum parts))"
proof -
  from assms(2) show m: "(k, parts) \<in> set (pending_result st)" by (simp add: finished_def)
  from assms(2) have "complete (pending_checksum st) (job_checksum st) k"
    by (simp add: finished_def)
  then show "map_of (job_checksum st) k = Some (int (rowsum parts))"
    using inv_entry(1) [OF assms(1) m] by (simp add: complete_def received_conv)
qed



text \<open>
  The well-formedness of the finished jobs cannot be dropped. A part whose partial id is no
  integer literal fails in the sort key of line 366, a job id without exactly one \<^verbatim>\<open>#\<close> in the
  unpacking of line 367, parts of different shapes in the concatenation of line 368: each is a
  ValueError that nothing catches. The jobs before the first such job in the scan are
  delivered; for that job only the log line is written, it stays in the tables, and the sink
  has ended.
\<close>

lemma those_None: "those xs = None \<longleftrightarrow> None \<in> set xs"
  by (induction xs) (auto split: option.splits)

lemma sorted_parts_None:
  "\<not> list_all (\<lambda>p. part_key (snd p) \<noteq> None) parts \<Longrightarrow> sorted_parts parts = None"
proof -
  assume "\<not> list_all (\<lambda>p. part_key (snd p) \<noteq> None) parts"
  then obtain p where "p \<in> set parts" "part_key (snd p) = None"
    by (auto simp add: list_all_iff)
  then have "None \<in> set (map (\<lambda>x. part_key (snd x)) parts)" by force
  then have "those (map (\<lambda>x. part_key (snd x)) parts) = None" by (simp only: those_None)
  then show ?thesis by (simp add: sorted_parts_def)
qed

lemma concatenate_mixed:
  assumes "parts = [] \<or> \<not> list_all (\<lambda>p. trailing (fst p) = trailing (fst (hd parts))) parts"
  shows "np_concatenate L (spec_order parts) = Inl ValueError"
proof (cases "spec_order parts")
  case Nil
  then show ?thesis by (simp add: np_concatenate_def)
next
  case (Cons X Xs)
  have s: "set (spec_order parts) = fst ` set parts" by (simp add: spec_order_def)
  from Cons have ne: "parts \<noteq> []" by (auto simp add: spec_order_def)
  with assms obtain p where p: "p \<in> set parts" "trailing (fst p) \<noteq> trailing (fst (hd parts))"
    by (auto simp add: list_all_iff)
  have "\<not> list_all (\<lambda>Y. trailing Y = trailing X) Xs"
  proof
    assume "list_all (\<lambda>Y. trailing Y = trailing X) Xs"
    then have a: "trailing Y = trailing X" if "Y \<in> set (spec_order parts)" for Y
      using that Cons by (auto simp add: list_all_iff)
    from ne have "hd parts \<in> set parts" by simp
    then have "fst (hd parts) \<in> set (spec_order parts)" unfolding s by blast
    moreover from p(1) have "fst p \<in> set (spec_order parts)" unfolding s by blast
    ultimately show False using a p(2) by metis
  qed
  then show ?thesis by (simp add: np_concatenate_def Cons)
qed

lemma deliver_ill_formed:
  assumes "\<not> wf_job k parts" "map_of (job_checksum st) k = Some e"
  shows "deliver L ((k, parts) # fin) st =
           Raised ValueError (st\<lparr>emitted := emitted st @ [Info (Send_back e k)]\<rparr>)"
proof (cases "list_all (\<lambda>p. part_key (snd p) \<noteq> None) parts")
  case False
  then show ?thesis using assms(2) by (simp add: sorted_parts_None emit_def)
next
  case True
  note sp = sorted_parts_spec [OF True]
  show ?thesis
  proof (cases "length (py_split CHR ''#'' k) = 2")
    case False
    then show ?thesis using assms(2)
      by (auto simp add: sp emit_def Let_def split: list.splits)
  next
    case l: True
    then obtain a b where ab: "py_split CHR ''#'' k = [a, b]"
      by (auto simp add: length_Suc_conv numeral_2_eq_2)
    from assms(1) True l
    have "parts = [] \<or> \<not> list_all (\<lambda>p. trailing (fst p) = trailing (fst (hd parts))) parts"
      by (auto simp add: wf_job_def)
    then have "np_concatenate L (spec_order parts) = Inl ValueError"
      by (rule concatenate_mixed)
    then show ?thesis using assms(2) by (simp add: sp ab emit_def Let_def)
  qed
qed


lemma deliver_raises:
  assumes "distinct (map fst (pre @ (k, parts) # post))"
    and "\<forall>(k', ps) \<in> set pre. wf_job k' ps \<and> map_of (pending_result st) k' \<noteq> None \<and>
           map_of (pending_checksum st) k' \<noteq> None \<and> map_of (job_checksum st) k' \<noteq> None"
    and "\<not> wf_job k parts" "map_of (job_checksum st) k = Some e"
  shows "deliver L (pre @ (k, parts) # post) st =
     Raised ValueError
       (st\<lparr>pending_result := remove_jobs (map fst pre) (pending_result st),
            pending_checksum := remove_jobs (map fst pre) (pending_checksum st),
            job_checksum := remove_jobs (map fst pre) (job_checksum st),
            emitted := emitted st @
              concat (map (\<lambda>(k', ps). [Info (Send_back (the (map_of (job_checksum st) k')) k'),
                                        Publish (spec_reply L k' ps)]) pre) @
              [Info (Send_back e k)]\<rparr>)"
  using assms
proof (induction pre arbitrary: st)
  case Nil
  have "deliver L ((k, parts) # post) st =
          Raised ValueError (st\<lparr>emitted := emitted st @ [Info (Send_back e k)]\<rparr>)"
    using Nil.prems(3,4) by (rule deliver_ill_formed)
  then show ?case by (simp add: remove_jobs_def del: deliver.simps)
next
  case (Cons kp pre)
  obtain k1 p1 where kp: "kp = (k1, p1)" by (cases kp)
  from Cons.prems(2) kp obtain e1 where
    w: "wf_job k1 p1" "map_of (pending_result st) k1 \<noteq> None"
       "map_of (pending_checksum st) k1 \<noteq> None" and e1: "map_of (job_checksum st) k1 = Some e1"
    by auto
  let ?st = "st\<lparr>emitted := emitted st @ [Info (Send_back e1 k1),
                                         Publish (spec_reply L k1 p1)],
                pending_result := AList.delete k1 (pending_result st),
                pending_checksum := AList.delete k1 (pending_checksum st),
                job_checksum := AList.delete k1 (job_checksum st)\<rparr>"
  from Cons.prems(1) kp have d: "distinct (map fst (pre @ (k, parts) # post))"
    and nk: "k1 \<notin> fst ` set pre" and kk: "k \<noteq> k1" by auto
  have other: "k' \<noteq> k1" if "(k', ps) \<in> set pre" for k' ps using that nk by force
  have h: "\<forall>(k', ps) \<in> set pre. wf_job k' ps \<and> map_of (pending_result ?st) k' \<noteq> None \<and>
           map_of (pending_checksum ?st) k' \<noteq> None \<and> map_of (job_checksum ?st) k' \<noteq> None"
    using Cons.prems(2) other by (auto simp add: AList.delete_conv')
  have e: "map_of (job_checksum ?st) k = Some e"
    using Cons.prems(4) kk by (simp add: AList.delete_conv')
  have c: "map (\<lambda>(k', ps). [Info (Send_back (the (map_of (job_checksum ?st) k')) k'),
                            Publish (spec_reply L k' ps)]) pre =
           map (\<lambda>(k', ps). [Info (Send_back (the (map_of (job_checksum st) k')) k'),
                            Publish (spec_reply L k' ps)]) pre"
    using other by (intro map_cong) (auto simp add: AList.delete_conv')
  have "deliver L ((kp # pre) @ (k, parts) # post) st =
          deliver L (pre @ (k, parts) # post) ?st"
    unfolding kp using deliver_step [OF w e1] by simp
  also note Cons.IH [OF d h Cons.prems(3) e]
  finally show ?case
    unfolding kp by (simp only: c) (simp add: remove_jobs_delete e1)
qed


lemma finish_raises:
  assumes inv: "sink_inv st" and f: "finished st = pre @ (k, parts) # post"
    and wf: "list_all (\<lambda>(k, parts). wf_job k parts) pre" and nwf: "\<not> wf_job k parts"
  shows "sink_finish L st =
     Raised ValueError
       (st\<lparr>emitted := emitted st @
              concat (map (\<lambda>(k, parts). [Info (Send_back (int (rowsum parts)) k),
                                         Publish (spec_reply L k parts)]) pre) @
              [Info (Send_back (int (rowsum parts)) k)],
            pending_result := remove_jobs (map fst pre) (pending_result st),
            pending_checksum := remove_jobs (map fst pre) (pending_checksum st),
            job_checksum := remove_jobs (map fst pre) (job_checksum st)\<rparr>)"
proof -
  have "list_all (\<lambda>kv. map_of (job_checksum st) (fst kv) \<noteq> None \<and>
                        map_of (pending_checksum st) (fst kv) \<noteq> None) (pending_result st)"
    using inv_entry [OF inv] by (auto simp add: list_all_iff)
  then have scan: "finished_scan (pending_result st) (pending_checksum st) (job_checksum st) =
      Inr (finished st, pending_checksum st)"
    by (simp only: finished_scan_total finished_def)
  from inv have "distinct (map fst (pending_result st))" by (simp add: sink_inv_def)
  then have "distinct (map fst (finished st))"
    unfolding finished_def by (rule distinct_map_filter)
  then have d: "distinct (map fst (pre @ (k, parts) # post))" by (simp only: f)
  have m: "(k', ps) \<in> set (finished st)" if "(k', ps) \<in> set pre" for k' ps
    using that by (simp add: f)
  have h: "\<forall>(k', ps) \<in> set pre. wf_job k' ps \<and>
       map_of (pending_result st) k' \<noteq> None \<and> map_of (pending_checksum st) k' \<noteq> None \<and>
       map_of (job_checksum st) k' \<noteq> None"
  proof (clarify, intro conjI)
    fix k' ps assume a: "(k', ps) \<in> set pre"
    note p = finished_entry(1) [OF inv m [OF a]]
    from wf a show "wf_job k' ps" by (auto simp add: list_all_iff)
    from inv_entry(3) [OF inv p] show "map_of (pending_result st) k' \<noteq> None" .
    from inv_entry(1) [OF inv p] show "map_of (pending_checksum st) k' \<noteq> None" by simp
    from inv_entry(2) [OF inv p] show "map_of (job_checksum st) k' \<noteq> None" .
  qed
  have "(k, parts) \<in> set (finished st)" by (simp add: f)
  from finished_entry(2) [OF inv this]
  have e: "map_of (job_checksum st) k = Some (int (rowsum parts))" .
  have c: "map (\<lambda>(k, parts). [Info (Send_back (the (map_of (job_checksum st) k)) k),
                              Publish (spec_reply L k parts)]) pre =
           map (\<lambda>(k, parts). [Info (Send_back (int (rowsum parts)) k),
                              Publish (spec_reply L k parts)]) pre"
    using finished_entry(2) [OF inv m] by (intro map_cong) auto
  have "sink_finish L st = deliver L (pre @ (k, parts) # post) st"
    by (simp add: sink_finish_def scan f)
  also note deliver_raises [OF d h nwf e, of L]
  finally show ?thesis by (simp only: c) simp
qed




section \<open>The consistency of the tables is an invariant of the sink\<close>

lemma sink_inv_iff:
  "sink_inv st \<longleftrightarrow>
     distinct (map fst (pending_result st)) \<and>
     (\<forall>k ps. map_of (pending_result st) k = Some ps \<longrightarrow>
        map_of (pending_checksum st) k = Some (rowsum ps) \<and> map_of (job_checksum st) k \<noteq> None) \<and>
     fst ` set (pending_checksum st) \<subseteq> fst ` set (pending_result st)"
proof (cases "distinct (map fst (pending_result st))")
  case True
  have m: "map_of (pending_result st) k = Some ps \<longleftrightarrow> (k, ps) \<in> set (pending_result st)"
    for k ps
    using True by simp
  have a: "list_all (\<lambda>(k, parts). map_of (pending_checksum st) k = Some (rowsum parts) \<and>
                            map_of (job_checksum st) k \<noteq> None) (pending_result st) \<longleftrightarrow>
        (\<forall>k ps. map_of (pending_result st) k = Some ps \<longrightarrow>
        map_of (pending_checksum st) k = Some (rowsum ps) \<and> map_of (job_checksum st) k \<noteq> None)"
    unfolding m list_all_iff by blast
  have "list_all (\<lambda>(k, n). map_of (pending_result st) k \<noteq> None) (pending_checksum st) \<longleftrightarrow>
        (\<forall>kv \<in> set (pending_checksum st). fst kv \<in> fst ` set (pending_result st))"
    by (simp add: list_all_iff map_of_eq_None_iff case_prod_unfold)
  also have "\<dots> \<longleftrightarrow> fst ` set (pending_checksum st) \<subseteq> fst ` set (pending_result st)"
    by blast
  finally have b: "list_all (\<lambda>(k, n). map_of (pending_result st) k \<noteq> None)
       (pending_checksum st) \<longleftrightarrow>
        fst ` set (pending_checksum st) \<subseteq> fst ` set (pending_result st)" .
  show ?thesis unfolding sink_inv_def a b using True by simp
next
  case False
  then show ?thesis by (simp add: sink_inv_def)
qed

lemma map_of_remove_jobs:
  "map_of (remove_jobs ks d) k = (if k \<in> set ks then None else map_of d k)"
  by (induction d) (auto simp add: remove_jobs_def)

lemma keys_remove_jobs: "fst ` set (remove_jobs ks d) = fst ` set d - set ks"
  by (auto simp add: remove_jobs_def)

lemma deliver_Ok_step:
  "deliver L ((k, parts) # fin) st = Ok st' \<Longrightarrow>
     \<exists>es. deliver L fin (st\<lparr>emitted := es,
                            pending_result := AList.delete k (pending_result st),
                            pending_checksum := AList.delete k (pending_checksum st),
                            job_checksum := AList.delete k (job_checksum st)\<rparr>) = Ok st'"
  by (auto simp add: Let_def emit_def dict_pop_def split: option.splits list.splits sum.splits)

lemma deliver_Ok_tables:
  "deliver L fin st = Ok st' \<Longrightarrow>
     pending_result st' = remove_jobs (map fst fin) (pending_result st) \<and>
     pending_checksum st' = remove_jobs (map fst fin) (pending_checksum st) \<and>
     job_checksum st' = remove_jobs (map fst fin) (job_checksum st)"
proof (induction fin arbitrary: st)
  case Nil
  then show ?case by (auto simp add: remove_jobs_def)
next
  case (Cons kp fin)
  obtain k parts where kp: "kp = (k, parts)" by (cases kp)
  from deliver_Ok_step [OF Cons.prems [unfolded kp]] obtain es where
    "deliver L fin (st\<lparr>emitted := es,
                            pending_result := AList.delete k (pending_result st),
                            pending_checksum := AList.delete k (pending_checksum st),
                            job_checksum := AList.delete k (job_checksum st)\<rparr>) = Ok st'" ..
  from Cons.IH [OF this] show ?case by (simp add: kp remove_jobs_delete)
qed

lemma inv_remove:
  assumes "sink_inv st"
  shows "sink_inv (st\<lparr>pending_result := remove_jobs ks (pending_result st),
                     pending_checksum := remove_jobs ks (pending_checksum st),
                     job_checksum := remove_jobs ks (job_checksum st)\<rparr>)"
proof -
  from assms have d: "distinct (map fst (pending_result st))"
    and e: "\<And>k ps. map_of (pending_result st) k = Some ps \<Longrightarrow>
        map_of (pending_checksum st) k = Some (rowsum ps) \<and> map_of (job_checksum st) k \<noteq> None"
    and s: "fst ` set (pending_checksum st) \<subseteq> fst ` set (pending_result st)"
    by (simp_all add: sink_inv_iff)
  have 1: "distinct (map fst (remove_jobs ks (pending_result st)))"
    unfolding remove_jobs_def using d by (rule distinct_map_filter)
  have 2: "map_of (remove_jobs ks (pending_checksum st)) k = Some (rowsum ps) \<and>
           map_of (remove_jobs ks (job_checksum st)) k \<noteq> None"
    if "map_of (remove_jobs ks (pending_result st)) k = Some ps" for k ps
  proof -
    from that have "k \<notin> set ks" "map_of (pending_result st) k = Some ps"
      by (simp_all add: map_of_remove_jobs split: if_splits)
    with e [of k ps] show ?thesis by (simp add: map_of_remove_jobs)
  qed
  have 3: "fst ` set (remove_jobs ks (pending_checksum st)) \<subseteq>
           fst ` set (remove_jobs ks (pending_result st))"
    using s by (simp only: keys_remove_jobs) blast
  show ?thesis unfolding sink_inv_iff using 1 2 3 by simp
qed

lemma inv_store:
  assumes inv: "sink_inv st" and reg: "map_of (job_checksum st) j \<noteq> None"
  shows "sink_inv (sink_store st j X p)"
proof -
  from inv have d: "distinct (map fst (pending_result st))"
    and e: "\<And>k ps. map_of (pending_result st) k = Some ps \<Longrightarrow>
        map_of (pending_checksum st) k = Some (rowsum ps) \<and> map_of (job_checksum st) k \<noteq> None"
    and s: "fst ` set (pending_checksum st) \<subseteq> fst ` set (pending_result st)"
    by (simp_all add: sink_inv_iff)
  define parts where "parts = fst (dd_get [] j (pending_result st))"
  define n where "n = fst (dd_get 0 j (pending_checksum st))"
  define pr where
    "pr = AList.update j (parts @ [(X, p)]) (snd (dd_get [] j (pending_result st)))"
  define pc where
    "pc = AList.update j (n + length (rows X)) (snd (dd_get 0 j (pending_checksum st)))"
  have st1: "sink_store st j X p = st\<lparr>pending_result := pr, pending_checksum := pc\<rparr>"
    by (simp add: sink_store_def pr_def pc_def parts_def n_def split: prod.splits)
  have mpr: "map_of pr = (map_of (pending_result st))(j \<mapsto> parts @ [(X, p)])"
    by (auto simp add: pr_def dd_get_def AList.update_conv' split: option.splits)
  have mpc: "map_of pc = (map_of (pending_checksum st))(j \<mapsto> n + length (rows X))"
    by (auto simp add: pc_def dd_get_def AList.update_conv' split: option.splits)
  have kpr: "fst ` set pr = insert j (fst ` set (pending_result st))"
    by (auto simp add: pr_def dd_get_def AList.dom_update split: option.splits)
  have kpc: "fst ` set pc = insert j (fst ` set (pending_checksum st))"
    by (auto simp add: pc_def dd_get_def AList.dom_update split: option.splits)
  have dpr: "distinct (map fst pr)"
    using d by (auto simp add: pr_def dd_get_def AList.distinct_update split: option.splits)
  have n: "n + length (rows X) = rowsum (parts @ [(X, p)])"
  proof (cases "map_of (pending_result st) j")
    case None
    then have "j \<notin> fst ` set (pending_result st)" by (simp add: map_of_eq_None_iff)
    with s have "j \<notin> fst ` set (pending_checksum st)" by auto
    then have "map_of (pending_checksum st) j = None" by (simp add: map_of_eq_None_iff)
    with None show ?thesis by (simp add: n_def parts_def dd_get_def rowsum_def)
  next
    case (Some ps)
    with e [OF Some] show ?thesis by (simp add: n_def parts_def dd_get_def rowsum_def)
  qed
  have "sink_inv (st\<lparr>pending_result := pr, pending_checksum := pc\<rparr>)"
    unfolding sink_inv_iff
    using dpr e s reg
    by (auto simp add: mpr mpc kpr kpc n)
  then show ?thesis by (simp only: st1)
qed

lemma inv_emit: "sink_inv (emit es st) = sink_inv st"
  by (simp add: sink_inv_def emit_def)

lemma frontend_tables:
  assumes "sink_frontend st msg = Ok st'"
  shows "pending_result st' = pending_result st" "pending_checksum st' = pending_checksum st"
    "map_of (job_checksum st) k \<noteq> None \<Longrightarrow> map_of (job_checksum st') k \<noteq> None"
  using assms
  by (auto simp add: sink_frontend_def emit_def Let_def AList.update_conv'
        split: list.splits option.splits if_splits)

lemma inv_frontend:
  assumes "sink_inv st" "sink_frontend st msg = Ok st'"
  shows "sink_inv st'"
proof -
  note t = frontend_tables [OF assms(2)]
  from assms(1) have d: "distinct (map fst (pending_result st))"
    and e: "\<And>k ps. map_of (pending_result st) k = Some ps \<Longrightarrow>
        map_of (pending_checksum st) k = Some (rowsum ps) \<and> map_of (job_checksum st) k \<noteq> None"
    and s: "fst ` set (pending_checksum st) \<subseteq> fst ` set (pending_result st)"
    by (simp_all add: sink_inv_iff)
  have "map_of (pending_checksum st) k = Some (rowsum ps) \<and> map_of (job_checksum st') k \<noteq> None"
    if "map_of (pending_result st) k = Some ps" for k ps
    using e [OF that] t(3) [of k] by simp
  then show ?thesis unfolding sink_inv_iff t(1) t(2) using d s by simp
qed

lemma inv_finish: "sink_inv st \<Longrightarrow> sink_finish L st = Ok st' \<Longrightarrow> sink_inv st'"
proof -
  assume inv: "sink_inv st" and ok: "sink_finish L st = Ok st'"
  from ok obtain fin pc' where
    scan: "finished_scan (pending_result st) (pending_checksum st) (job_checksum st) =
             Inr (fin, pc')"
    and del: "deliver L fin (st\<lparr>pending_checksum := pc'\<rparr>) = Ok st'"
    by (auto simp add: sink_finish_def split: sum.splits)
  have "list_all (\<lambda>kv. map_of (job_checksum st) (fst kv) \<noteq> None \<and>
                        map_of (pending_checksum st) (fst kv) \<noteq> None) (pending_result st)"
    using inv_entry [OF inv] by (auto simp add: list_all_iff)
  from finished_scan_total [OF this] scan have pc': "pc' = pending_checksum st" by simp
  from deliver_Ok_tables [OF del] pc' have t:
    "pending_result st' = remove_jobs (map fst fin) (pending_result st)"
    "pending_checksum st' = remove_jobs (map fst fin) (pending_checksum st)"
    "job_checksum st' = remove_jobs (map fst fin) (job_checksum st)" by simp_all
  from inv_remove [OF inv, of "map fst fin"] show "sink_inv st'"
    unfolding sink_inv_iff t by simp
qed

lemma inv_receiver: "sink_inv st \<Longrightarrow> sink_receiver L st msg = Ok st' \<Longrightarrow> sink_inv st'"
proof -
  assume inv: "sink_inv st" and ok: "sink_receiver L st msg = Ok st'"
  from ok have l: "\<not> length msg < 3"
    by (auto simp add: sink_receiver_def split: if_splits)
  from ok l obtain X where X: "recv_ndarray L (msg ! 1) (msg ! 2) = Inr X"
    by (cases "recv_ndarray L (msg ! 1) (msg ! 2)") (auto simp add: sink_receiver_def)
  let ?j = "hd (py_split CHR ''@'' (msg ! 0))"
  let ?p = "if length (py_split CHR ''@'' (msg ! 0)) = 2
            then Some (py_split CHR ''@'' (msg ! 0) ! 1) else None"
  let ?st1 = "sink_store st ?j X ?p"
  from ok l X obtain es where
    reg: "map_of (job_checksum ?st1) ?j \<noteq> None"
    and f: "sink_finish L (emit es ?st1) = Ok st'"
    by (cases "map_of (job_checksum ?st1) ?j") (auto simp add: sink_receiver_def Let_def)
  from reg have "map_of (job_checksum st) ?j \<noteq> None" by (simp add: store_tables)
  from inv_store [OF inv this] have "sink_inv (emit es ?st1)"
    by (simp only: inv_emit)
  from inv_finish [OF this f] show "sink_inv st'" .
qed

lemma inv_run: "sink_inv st \<Longrightarrow> sink_run L st ms = Ok st' \<Longrightarrow> sink_inv st'"
proof (induction ms arbitrary: st)
  case Nil
  then show ?case by simp
next
  case (Cons m ms)
  from Cons.prems(2) obtain s where s: "sink_step L st m = Ok s" "sink_run L s ms = Ok st'"
    by (cases "sink_step L st m") simp_all
  have "sink_inv s"
  proof (cases m)
    case (Receiver msg)
    with s(1) have "sink_receiver L st msg = Ok s" by (simp add: sink_step_def)
    from inv_receiver [OF Cons.prems(1) this] show ?thesis .
  next
    case (Frontend msg)
    with s(1) have "sink_frontend st msg = Ok s" by (simp add: sink_step_def)
    from inv_frontend [OF Cons.prems(1) this] show ?thesis .
  qed
  from Cons.IH [OF this s(2)] show ?case .
qed

lemma inv_init: "sink_inv sink_init"
  by (simp add: sink_inv_def sink_init_def)

lemma reachable_inv: "sink_run L sink_init ms = Ok st \<Longrightarrow> sink_inv st"
  using inv_init by (rule inv_run)

section \<open>What an unregistered job does to the sink\<close>

text \<open>
  A partial result whose job is not in \<^verbatim>\<open>job_checksum\<close> ends the sink with KeyError,
  whatever the state; and a delivered job is in none of the three tables.
\<close>

lemma unregistered_partial_raises:
  assumes "3 \<le> length msg" "recv_ndarray L (msg ! 1) (msg ! 2) = Inr X"
    "map_of (job_checksum st) (hd (py_split CHR ''@'' (msg ! 0))) = None"
  shows "\<exists>st'. sink_receiver L st msg = Raised KeyError st'"
  using assms by (simp add: sink_receiver_def Let_def store_tables)

lemma delivered_job_dropped:
  assumes "deliver L fin st = Ok st'" "k \<in> fst ` set fin"
  shows "map_of (pending_result st') k = None" "map_of (pending_checksum st') k = None"
    "map_of (job_checksum st') k = None"
  using deliver_Ok_tables [OF assms(1)] assms(2) by (simp_all add: map_of_remove_jobs)

text \<open>
  Claim C3, at a failing input. The first message the sink handles is a partial result of job
  \<^verbatim>\<open>c#7\<close>, the registration of the job comes second. The partial is stored, then the log call
  of line 355 reads \<^verbatim>\<open>job_checksum[job_id]\<close> and raises KeyError, which nothing catches:
  the sink ends before it reads the registration.
\<close>

theorem early_partial_raises_KeyError:
  "sink_run (example_lib 8) sink_init
     [Receiver [''c#7'', ''u1'', ''ab'', []], Frontend [''c'', new_job, ''2'', ''7'']] =
   Raised KeyError \<lparr>pending_checksum = [(''c#7'', 2)],
      pending_result = [(''c#7'', [(\<lparr>dtype = ''u1'', trailing = [], rows = ''ab''\<rparr>, None)])],
      job_checksum = [], emitted = []\<rparr>"
  by code_simp

text \<open>
  Claim C4, at a failing input. Job \<^verbatim>\<open>c#7\<close> is registered with two items and one partial
  with two rows arrives: the job is delivered and the three tables are empty again. A second
  partial for the same job then raises KeyError in the log call of line 355 and ends the sink.
\<close>

theorem late_partial_raises_KeyError:
  "sink_run (example_lib 8) sink_init
     [Frontend [''c'', new_job, ''2'', ''7''], Receiver [''c#7'', ''u1'', ''ab'', []]] =
   Ok \<lparr>pending_checksum = [], pending_result = [], job_checksum = [],
       emitted = [Info (Job_register 2 ''c#7''), Info (Collect_job ''c#7'' 2 2),
         Info (Send_back 2 ''c#7''), Publish [''c'', ''u1'', ''ab'', ''7'']]\<rparr>
  \<and> sink_run (example_lib 8) sink_init
     [Frontend [''c'', new_job, ''2'', ''7''], Receiver [''c#7'', ''u1'', ''ab'', []],
      Receiver [''c#7'', ''u1'', ''z'', []]] =
   Raised KeyError \<lparr>pending_checksum = [(''c#7'', 1)],
      pending_result = [(''c#7'', [(\<lparr>dtype = ''u1'', trailing = [], rows = ''z''\<rparr>, None)])],
      job_checksum = [],
       emitted = [Info (Job_register 2 ''c#7''), Info (Collect_job ''c#7'' 2 2),
         Info (Send_back 2 ''c#7''), Publish [''c'', ''u1'', ''ab'', ''7'']]\<rparr>"
  by code_simp

section \<open>More rows than registered\<close>









end
